theory Spec2Isabelle
  imports Complex_Main "HOL-Library.Word" "HOL-Library.Multiset"
begin

unbundle bit_operations_syntax

chapter \<open>audio2strudel: the analysis pipeline and its two serializers\<close>

text \<open>
  A shallow embedding of the TypeScript sources. JavaScript numbers are modelled by
  \<^typ>\<open>real\<close> (exact arithmetic, no rounding, no NaN and no infinities) and by
  \<^typ>\<open>int\<close> or \<^typ>\<open>nat\<close> where the source only ever holds integers (array
  indices, ticks, bytes). \<open>Math.round x\<close> is \<open>\<lfloor>x + 1/2\<rfloor>\<close>, which is HOL's
  \<^const>\<open>round\<close>. An optional field is an \<^typ>\<open>'a option\<close>. Strings are
  \<^typ>\<open>string\<close>.
\<close>

section \<open>Shared data model (\<open>shared/schema.ts\<close>)\<close>

text \<open>
  The field \<open>note\<close> of a note is \<open>pitch\<close> here, and the fields of a chord carry the
  prefix \<open>chord\<close>, because \<open>note\<close> and \<open>notes\<close> are keywords of Isabelle and field
  names are global.
\<close>

record Note =
  pitch :: string
  time :: real
  duration :: "real option"
  velocity :: "real option"

record Chord =
  chordNotes :: "string list"
  chordName :: string
  chordTime :: real
  chordDuration :: "real option"

text \<open>\<open>x || d\<close> on an optional number: \<open>undefined\<close> and \<open>0\<close> are falsy.\<close>

definition orElse :: "real option \<Rightarrow> real \<Rightarrow> real" where
  "orElse x d = (case x of None \<Rightarrow> d | Some v \<Rightarrow> if v = 0 then d else v)"

section \<open>Sequence file encoder (\<open>client/src/lib/midi-export.ts\<close>)\<close>

subsection \<open>Pitch names\<close>

definition NOTE_MAP :: "(string \<times> int) list" where
  "NOTE_MAP = [(''c'', 0), (''cs'', 1), (''d'', 2), (''ds'', 3), (''e'', 4), (''f'', 5),
               (''fs'', 6), (''g'', 7), (''gs'', 8), (''a'', 9), (''as'', 10), (''b'', 11)]"

definition isDigit :: "char \<Rightarrow> bool" where
  "isDigit c = (c \<in> set ''0123456789'')"

definition isLetterAG :: "char \<Rightarrow> bool" where
  "isLetterAG c = (c \<in> set ''abcdefgABCDEFG'')"

definition isSharpS :: "char \<Rightarrow> bool" where
  "isSharpS c = (c = CHR ''s'' \<or> c = CHR ''S'')"

definition toLowerChar :: "char \<Rightarrow> char" where
  "toLowerChar c =
     (let k = (of_char c :: nat) in if 65 \<le> k \<and> k \<le> 90 then char_of (k + 32) else c)"

definition toLowerCase :: "string \<Rightarrow> string" where
  "toLowerCase s = map toLowerChar s"

definition digitVal :: "char \<Rightarrow> int" where
  "digitVal c = int (of_char c) - 48"

text \<open>\<open>parseInt(ds, 10)\<close> on a string of decimal digits.\<close>

definition parseInt :: "string \<Rightarrow> int" where
  "parseInt ds = foldl (\<lambda>acc c. 10 * acc + digitVal c) 0 ds"

definition isDigits :: "string \<Rightarrow> bool" where
  "isDigits ds = (ds \<noteq> [] \<and> list_all isDigit ds)"

text \<open>
  \<open>note.match(/^([a-g]s?)(\d+)$/i)\<close>: one letter a to g in either case, then greedily an
  optional \<open>s\<close>, then one digit or more up to the end of the string. The result is the
  pair of capture groups, the first one already lower-cased.
\<close>

fun parseNote :: "string \<Rightarrow> (string \<times> int) option" where
  "parseNote [] = None"
| "parseNote (c # rest) =
     (if \<not> isLetterAG c then None
      else (case rest of
              [] \<Rightarrow> None
            | s # ds \<Rightarrow>
                if isSharpS s \<and> isDigits ds then Some (toLowerCase [c, s], parseInt ds)
                else if isDigits rest then Some (toLowerCase [c], parseInt rest)
                else None))"

definition noteToMidi :: "string \<Rightarrow> int" where
  "noteToMidi n =
     (case parseNote n of
        None \<Rightarrow> 60
      | Some (noteName, octave) \<Rightarrow>
          (case map_of NOTE_MAP noteName of None \<Rightarrow> 0 | Some k \<Rightarrow> k) + (octave + 1) * 12)"

subsection \<open>Byte-level writers\<close>

text \<open>The bitwise operators of JavaScript first convert their operand to a signed 32-bit integer.\<close>

definition toInt32 :: "int \<Rightarrow> int" where
  "toInt32 v = signed_take_bit 31 v"

function vlqLoop :: "int \<Rightarrow> int list \<Rightarrow> int list" where
  "vlqLoop v bytes =
     (if v > 0 then vlqLoop (drop_bit 7 (toInt32 v)) (bytes @ [(toInt32 v AND 0x7F) OR 0x80])
      else bytes)"
  by pat_completeness auto
termination
proof (relation "measure (\<lambda>(v, bytes). nat v)")
  show "wf (measure (\<lambda>(v, bytes). nat v))" by simp
next
  fix v :: int and bytes :: "int list"
  assume pos: "0 < v"
  have "signed_take_bit 31 v \<le> v"
    using pos by (simp add: signed_take_bit_int_less_eq_self_iff)
  then have "signed_take_bit 31 v div 128 < v"
    using pos by linarith
  then show "((drop_bit 7 (toInt32 v), bytes @ [(toInt32 v AND 0x7F) OR 0x80]), (v, bytes))
               \<in> measure (\<lambda>(v, bytes). nat v)"
    using pos by (simp add: toInt32_def drop_bit_eq_div)
qed

declare vlqLoop.simps [simp del]

definition writeVariableLengthQuantity :: "int \<Rightarrow> int list" where
  "writeVariableLengthQuantity v =
     rev (vlqLoop (drop_bit 7 (toInt32 v)) [toInt32 v AND 0x7F])"

definition writeInt16BE :: "int \<Rightarrow> int list" where
  "writeInt16BE v = [drop_bit 8 (toInt32 v) AND 0xFF, toInt32 v AND 0xFF]"

definition writeInt32BE :: "int \<Rightarrow> int list" where
  "writeInt32BE v =
     [drop_bit 24 (toInt32 v) AND 0xFF, drop_bit 16 (toInt32 v) AND 0xFF,
      drop_bit 8 (toInt32 v) AND 0xFF, toInt32 v AND 0xFF]"


subsection \<open>Track chunks\<close>

record DeltaEvent =
  delta :: int
  eventData :: "int list"

definition createMidiTrack :: "DeltaEvent list \<Rightarrow> int list" where
  "createMidiTrack events =
     (let trackData =
            concat (map (\<lambda>event. writeVariableLengthQuantity (delta event) @ eventData event) events)
            @ writeVariableLengthQuantity 0 @ [0xFF, 0x2F, 0x00];
          trackChunk = [0x4D, 0x54, 0x72, 0x6B] @ writeInt32BE (int (length trackData))
      in trackChunk @ trackData)"

subsection \<open>The exporter\<close>

record MidiExportOptions =
  tempo :: real
  ppq :: "int option"
  includeChords :: "bool option"
  includeMelody :: "bool option"

record AbsoluteEvent =
  absoluteTick :: int
  data :: "int list"

definition timeToTicks :: "real \<Rightarrow> int \<Rightarrow> real \<Rightarrow> int" where
  "timeToTicks tempo' ticksPerBeat t = round (t * tempo' / 60 * real_of_int ticksPerBeat)"

text \<open>The two events one melody note contributes, on channel 0.\<close>

definition melodyEvents :: "real \<Rightarrow> int \<Rightarrow> Note \<Rightarrow> AbsoluteEvent list" where
  "melodyEvents tempo' ticksPerBeat n =
     (let midiNote = noteToMidi (pitch n);
          vel = round (orElse (velocity n) 0.8 * 127);
          startTick = timeToTicks tempo' ticksPerBeat (time n);
          durationTicks = max 1 (timeToTicks tempo' ticksPerBeat (orElse (duration n) 0.25))
      in [\<lparr>absoluteTick = startTick, data = [0x90, midiNote, vel]\<rparr>,
          \<lparr>absoluteTick = startTick + durationTicks, data = [0x80, midiNote, 0]\<rparr>])"

text \<open>The events of one chord, on channel 1: an on/off pair for each of its notes.\<close>

definition chordEvents :: "real \<Rightarrow> int \<Rightarrow> Chord \<Rightarrow> AbsoluteEvent list" where
  "chordEvents tempo' ticksPerBeat chord =
     (let startTick = timeToTicks tempo' ticksPerBeat (chordTime chord);
          durationTicks = max 1 (timeToTicks tempo' ticksPerBeat (orElse (chordDuration chord) 1))
      in concat (map (\<lambda>noteStr.
           [\<lparr>absoluteTick = startTick, data = [0x91, noteToMidi noteStr, 80]\<rparr>,
            \<lparr>absoluteTick = startTick + durationTicks, data = [0x81, noteToMidi noteStr, 0]\<rparr>])
           (chordNotes chord)))"

definition ticksPerBeatOf :: "MidiExportOptions \<Rightarrow> int" where
  "ticksPerBeatOf options = (case ppq options of None \<Rightarrow> 480 | Some p \<Rightarrow> p)"

text \<open>The list \<open>absoluteEvents\<close> as it stands before the call of \<open>sort\<close>.\<close>

definition collectEvents :: "Note list \<Rightarrow> Chord list \<Rightarrow> MidiExportOptions \<Rightarrow> AbsoluteEvent list" where
  "collectEvents melody chords options =
     (let ticksPerBeat = ticksPerBeatOf options;
          inclC = (case includeChords options of None \<Rightarrow> True | Some b \<Rightarrow> b);
          inclM = (case includeMelody options of None \<Rightarrow> True | Some b \<Rightarrow> b)
      in (if inclM \<and> length melody > 0
          then concat (map (melodyEvents (tempo options) ticksPerBeat) melody) else [])
       @ (if inclC \<and> length chords > 0
          then concat (map (chordEvents (tempo options) ticksPerBeat) chords) else []))"

definition isNoteOff :: "AbsoluteEvent \<Rightarrow> bool" where
  "isNoteOff e = (case data e of [] \<Rightarrow> False | d # _ \<Rightarrow> toInt32 d AND 0xF0 = 0x80)"

text \<open>The comparison function handed to \<open>sort\<close>.\<close>

definition compareEvents :: "AbsoluteEvent \<Rightarrow> AbsoluteEvent \<Rightarrow> int" where
  "compareEvents a b =
     (if absoluteTick a \<noteq> absoluteTick b then absoluteTick a - absoluteTick b
      else if isNoteOff a \<noteq> isNoteOff b then (if isNoteOff a then - 1 else 1)
      else 0)"

text \<open>
  \<open>Array.prototype.sort\<close> is a stable sort (ECMAScript 2019 and later), and for a
  consistent comparison function its result is determined: the elements in the order of
  the comparison, equal ones in their original order. It is modelled by the stable
  insertion sort that has this result.
\<close>

fun insertBy :: "('a \<Rightarrow> 'a \<Rightarrow> int) \<Rightarrow> 'a \<Rightarrow> 'a list \<Rightarrow> 'a list" where
  "insertBy cmp x [] = [x]"
| "insertBy cmp x (y # ys) = (if cmp x y \<le> 0 then x # y # ys else y # insertBy cmp x ys)"

definition sortBy :: "('a \<Rightarrow> 'a \<Rightarrow> int) \<Rightarrow> 'a list \<Rightarrow> 'a list" where
  "sortBy cmp xs = foldr (insertBy cmp) xs []"

definition sortedEvents :: "Note list \<Rightarrow> Chord list \<Rightarrow> MidiExportOptions \<Rightarrow> AbsoluteEvent list" where
  "sortedEvents melody chords options = sortBy compareEvents (collectEvents melody chords options)"

text \<open>Delta encoding: \<open>lastTick\<close> is threaded through the loop.\<close>

fun deltaEncode :: "int \<Rightarrow> AbsoluteEvent list \<Rightarrow> DeltaEvent list" where
  "deltaEncode lastTick [] = []"
| "deltaEncode lastTick (event # events) =
     \<lparr>delta = max 0 (absoluteTick event - lastTick), eventData = data event\<rparr>
       # deltaEncode (absoluteTick event) events"

definition tempoTrackEvents :: "real \<Rightarrow> DeltaEvent list" where
  "tempoTrackEvents tempo' =
     (let microsecondsPerBeat = round (60000000 / tempo')
      in [\<lparr>delta = 0, eventData =
             [0xFF, 0x51, 0x03,
              drop_bit 16 (toInt32 microsecondsPerBeat) AND 0xFF,
              drop_bit 8 (toInt32 microsecondsPerBeat) AND 0xFF,
              toInt32 microsecondsPerBeat AND 0xFF]\<rparr>,
          \<lparr>delta = 0, eventData = [0xFF, 0x58, 0x04, 0x04, 0x02, 0x18, 0x08]\<rparr>,
          \<lparr>delta = 0, eventData =
             [0xFF, 0x03, 0x0B] @ map (\<lambda>c. int (of_char c)) ''Audio Track''\<rparr>])"

definition headerChunk :: "int \<Rightarrow> int list" where
  "headerChunk ticksPerBeat =
     [0x4D, 0x54, 0x68, 0x64, 0x00, 0x00, 0x00, 0x06, 0x00, 0x01]
     @ writeInt16BE 2 @ writeInt16BE ticksPerBeat"

text \<open>\<open>new Uint8Array(midiData)\<close> stores every number modulo 256.\<close>

definition exportMelodyToMidi :: "Note list \<Rightarrow> Chord list \<Rightarrow> MidiExportOptions \<Rightarrow> 8 word list" where
  "exportMelodyToMidi melody chords options =
     (let tempoTrack = createMidiTrack (tempoTrackEvents (tempo options));
          deltaEvents = deltaEncode 0 (sortedEvents melody chords options);
          noteTrack = createMidiTrack deltaEvents;
          midiData = headerChunk (ticksPerBeatOf options) @ tempoTrack @ noteTrack
      in map word_of_int midiData)"

text \<open>
  The status bytes the exporter writes: \<open>0x90\<close> and \<open>0x91\<close> switch a pitch on
  (channel 0 for the melody, channel 1 for the chords), \<open>0x80\<close> and \<open>0x81\<close> switch it
  off. \<open>isNoteOff\<close> above is the test the comparison function makes; \<open>isNoteOn\<close> is
  the same test for the other kind.
\<close>

definition isNoteOn :: "AbsoluteEvent \<Rightarrow> bool" where
  "isNoteOn e = (case data e of [] \<Rightarrow> False | d # _ \<Rightarrow> toInt32 d AND 0xF0 = 0x90)"

text \<open>The order the comparison function induces: by tick, and at one tick pitch-off first.\<close>

definition evLe :: "AbsoluteEvent \<Rightarrow> AbsoluteEvent \<Rightarrow> bool" where
  "evLe a b = (absoluteTick a < absoluteTick b \<or>
     (absoluteTick a = absoluteTick b \<and> (isNoteOff b \<longrightarrow> isNoteOff a)))"

text \<open>
  A pitch name as the specification words it: a letter class a to g, an optional sharp
  suffix \<open>s\<close>, and octave digits. It is compared with \<open>parseNote\<close> below.
\<close>

definition matchesPitchName :: "string \<Rightarrow> bool" where
  "matchesPitchName s =
     (case s of
        [] \<Rightarrow> False
      | c # r \<Rightarrow> isLetterAG c \<and>
          (isDigits r \<or> (case r of [] \<Rightarrow> False | x # ds \<Rightarrow> isSharpS x \<and> isDigits ds)))"

text \<open>The chord and the options of end-to-end scenario D of the specification.\<close>

definition scenarioD_chord :: Chord where
  "scenarioD_chord =
     \<lparr>chordNotes = [''C4'', ''E4'', ''G4''], chordName = ''C'', chordTime = 0,
      chordDuration = Some 1\<rparr>"

definition scenarioD_options :: MidiExportOptions where
  "scenarioD_options =
     \<lparr>tempo = 120, ppq = Some 480, includeChords = None, includeMelody = None\<rparr>"

text \<open>
  A melody whose second note ends on the tick where its first note begins: before the
  sort, the pitch-on event of tick 480 stands before the pitch-off event of tick 480.
\<close>

definition tieExample_melody :: "Note list" where
  "tieExample_melody =
     [\<lparr>pitch = ''a4'', time = 1/2, duration = Some (1/2), velocity = None\<rparr>,
      \<lparr>pitch = ''a4'', time = 0, duration = Some (1/2), velocity = None\<rparr>]"

definition tieExample_options :: MidiExportOptions where
  "tieExample_options = \<lparr>tempo = 120, ppq = None, includeChords = None, includeMelody = None\<rparr>"

section \<open>Quantizer (\<open>quantizeNotes\<close>)\<close>

subsection \<open>Rounding to a double\<close>

text \<open>
  A JavaScript number is an IEEE 754 double, and every arithmetic operation returns the
  double nearest to the exact result, a tie going to the even significand. Whether a
  second pass of the quantizer moves a note depends on this rounding, so the quantizer
  is modelled with it: \<open>toDouble\<close> rounds a real number to 53 significant bits.
  \<open>binExp x\<close> is the binary exponent of a positive \<open>x\<close> (the \<open>e\<close> with
  \<open>2^e \<le> x < 2^(e+1)\<close>) and \<open>pow2 e\<close> is \<open>2^e\<close>. The exponent is unbounded here:
  the model has no overflow to \<open>Infinity\<close> and no subnormal numbers, it agrees with
  the doubles on the results between \<open>2^-1022\<close> and \<open>2^1024\<close> in magnitude.
\<close>

definition roundEven :: "real \<Rightarrow> int" where
  "roundEven x =
     (let f = \<lfloor>x\<rfloor>; d = x - real_of_int f
      in if d < 1/2 then f else if 1/2 < d then f + 1 else if even f then f else f + 1)"

definition pow2 :: "int \<Rightarrow> real" where
  "pow2 e = (if 0 \<le> e then 2 ^ nat e else 1 / 2 ^ nat (- e))"

function binExp :: "real \<Rightarrow> int" where
  "binExp x = (if x \<le> 0 then 0
               else if 2 \<le> x then binExp (x / 2) + 1
               else if x < 1 then binExp (x * 2) - 1
               else 0)"
  by pat_completeness auto
termination
proof (relation "measure (\<lambda>x. nat \<bar>\<lfloor>log 2 x\<rfloor>\<bar>)")
  show "wf (measure (\<lambda>x. nat \<bar>\<lfloor>log 2 x\<rfloor>\<bar>))" by simp
next
  fix x :: real
  assume "\<not> x \<le> 0" and x: "2 \<le> x"
  then have l: "log 2 (x / 2) = log 2 x - 1" by (simp add: log_divide)
  have "1 \<le> log 2 x" using x by (simp add: le_log_iff)
  then have "1 \<le> \<lfloor>log 2 x\<rfloor>" by (simp add: le_floor_iff)
  moreover have "\<lfloor>log 2 (x / 2)\<rfloor> = \<lfloor>log 2 x\<rfloor> - 1" unfolding l by simp
  ultimately show "(x / 2, x) \<in> measure (\<lambda>x. nat \<bar>\<lfloor>log 2 x\<rfloor>\<bar>)" by simp
next
  fix x :: real
  assume p: "\<not> x \<le> 0" and "\<not> 2 \<le> x" and x: "x < 1"
  then have l: "log 2 (x * 2) = log 2 x + 1" by (simp add: log_mult)
  have "log 2 x < 0" using x p by simp
  then have "\<lfloor>log 2 x\<rfloor> < 0" by (simp only: floor_less_zero)
  moreover have "\<lfloor>log 2 (x * 2)\<rfloor> = \<lfloor>log 2 x\<rfloor> + 1" unfolding l by simp
  ultimately have "\<bar>\<lfloor>log 2 (x * 2)\<rfloor>\<bar> < \<bar>\<lfloor>log 2 x\<rfloor>\<bar>" by linarith
  then show "(x * 2, x) \<in> measure (\<lambda>x. nat \<bar>\<lfloor>log 2 x\<rfloor>\<bar>)" by simp
qed

declare binExp.simps [simp del]

definition toDouble :: "real \<Rightarrow> real" where
  "toDouble x =
     (if x = 0 then 0
      else let ulp = pow2 (binExp \<bar>x\<bar> - 52)
           in real_of_int (roundEven (x / ulp)) * ulp)"

subsection \<open>The quantizer\<close>

text \<open>The grid values of the parameter panel (\<open>QUANTIZE_VALUES\<close> of \<open>analysis-parameters.tsx\<close>).\<close>

definition QUANTIZE_VALUES :: "string list" where
  "QUANTIZE_VALUES = [''1/4'', ''1/8'', ''1/16'', ''1/32'', ''none'']"

definition quantizeMap :: "(string \<times> real) list" where
  "quantizeMap = [(''1/4'', 1), (''1/8'', 0.5), (''1/16'', 0.25), (''1/32'', 0.125)]"

text \<open>
  \<open>quantizeMap[quantizeValue] || 0.25\<close>: a grid value that is not a key of the table
  gives 0.25. This holds of the own keys of the object only: under a name that every
  JavaScript object inherits (\<open>constructor\<close>, \<open>toString\<close>, \<open>valueOf\<close>, ...) the lookup
  finds a function, the grid size is \<open>NaN\<close>, and the notes have no numeric time. Such a
  name is not a grid value; the properties below are stated for \<open>QUANTIZE_VALUES\<close>.
\<close>

definition gridFraction :: "string \<Rightarrow> real" where
  "gridFraction quantizeValue = orElse (map_of quantizeMap quantizeValue) 0.25"

text \<open>\<open>gridSize\<close>: the quotient \<open>60 / tempo\<close> and the product are each rounded.\<close>

definition gridSizeOf :: "real \<Rightarrow> string \<Rightarrow> real" where
  "gridSizeOf tempo' quantizeValue =
     (let beatDuration = toDouble (60 / tempo')
      in toDouble (beatDuration * gridFraction quantizeValue))"

text \<open>
  The body of the \<open>map\<close>. \<open>Math.round\<close> is exact (the integer nearest to its argument,
  a tie going up); the quotient before it and the product after it are rounded to
  doubles. A duration that is absent or 0 is falsy and becomes \<open>undefined\<close>.
\<close>

definition quantizeNote :: "real \<Rightarrow> Note \<Rightarrow> Note" where
  "quantizeNote gridSize n =
     n\<lparr>time := toDouble (real_of_int (round (toDouble (time n / gridSize))) * gridSize),
       duration :=
         (case duration n of
            None \<Rightarrow> None
          | Some d \<Rightarrow>
              if d = 0 then None
              else Some (max gridSize
                     (toDouble (real_of_int (round (toDouble (d / gridSize))) * gridSize))))\<rparr>"

definition quantizeNotes :: "Note list \<Rightarrow> real \<Rightarrow> string \<Rightarrow> Note list" where
  "quantizeNotes ns tempo' quantizeValue =
     (if quantizeValue = ''none'' then ns
      else map (quantizeNote (gridSizeOf tempo' quantizeValue)) ns)"

text \<open>
  A note within \<open>2^50\<close> grid units: neither its onset time nor its duration exceeds
  \<open>2^50\<close> times the grid size in magnitude.
\<close>

definition withinGrid :: "real \<Rightarrow> Note \<Rightarrow> bool" where
  "withinGrid gridSize n =
     (\<bar>time n\<bar> \<le> 2 ^ 50 * gridSize \<and>
      (case duration n of None \<Rightarrow> True | Some d \<Rightarrow> \<bar>d\<bar> \<le> 2 ^ 50 * gridSize))"

text \<open>A melody to quantize: a note off the grid, a note without a duration, a note shorter than a grid unit.\<close>

definition quantizeExample :: "Note list" where
  "quantizeExample =
     [\<lparr>pitch = ''a4'', time = 3/10, duration = Some (1/5), velocity = None\<rparr>,
      \<lparr>pitch = ''c5'', time = 7/10, duration = None, velocity = Some (1/2)\<rparr>,
      \<lparr>pitch = ''e5'', time = 1, duration = Some (1/100), velocity = None\<rparr>]"

text \<open>A note whose onset is \<open>2^49\<close> seconds, and a note of 10 ms at time 0.\<close>

definition farNote :: "Note list" where
  "farNote = [\<lparr>pitch = ''a4'', time = 2 ^ 49, duration = Some 1, velocity = None\<rparr>]"

definition shortNote :: "Note list" where
  "shortNote = [\<lparr>pitch = ''a4'', time = 0, duration = Some (1 / 100), velocity = None\<rparr>]"

section \<open>Pattern notation generator (\<open>generateStrudelCode\<close>)\<close>

record StrudelCode =
  melodyCode :: string
  chordsCode :: string
  combinedCode :: string

subsection \<open>Strings and numbers\<close>

text \<open>\<open>xs.join(sep)\<close>.\<close>

fun joinWith :: "string \<Rightarrow> string list \<Rightarrow> string" where
  "joinWith sep [] = []"
| "joinWith sep [x] = x"
| "joinWith sep (x # y # zs) = x @ sep @ joinWith sep (y # zs)"

text \<open>\<open>s.split(c)\<close> for a one-character separator: the pieces between the separators.\<close>

fun splitOn :: "char \<Rightarrow> string \<Rightarrow> string list" where
  "splitOn c [] = [[]]"
| "splitOn c (x # xs) =
     (if x = c then [] # splitOn c xs
      else (case splitOn c xs of [] \<Rightarrow> [[x]] | p # ps \<Rightarrow> (x # p) # ps))"

text \<open>The decimal numeral of a natural number and of an integer, as a template string prints it.\<close>

fun showNat :: "nat \<Rightarrow> string" where
  "showNat n = (if n < 10 then [char_of (48 + n)] else showNat (n div 10) @ [char_of (48 + n mod 10)])"

declare showNat.simps [simp del]

definition showInt :: "int \<Rightarrow> string" where
  "showInt k = (if k < 0 then CHR ''-'' # showNat (nat (- k)) else showNat (nat k))"

text \<open>
  \<open>Number(s)\<close> for a string of decimal digits; the empty string is 0. Every other string
  is read as NaN here (\<open>None\<close>), which covers every time signature the parameter form
  offers; the other numerals JavaScript accepts are outside this model.
\<close>

definition jsNumber :: "string \<Rightarrow> real option" where
  "jsNumber s = (if s = [] then Some 0 else if isDigits s then Some (real_of_int (parseInt s)) else None)"

subsection \<open>Tokens\<close>

definition isAccidental :: "char \<Rightarrow> bool" where
  "isAccidental c = (c = CHR ''#'' \<or> c = CHR ''b'')"

text \<open>
  \<open>note.match(/^([A-Ga-g])([#b]?)(\d+)$/)\<close>: a letter, greedily an optional \<open>#\<close> or
  \<open>b\<close>, and digits up to the end. A string that does not match is lower-cased whole.
\<close>

definition formatNoteForStrudel :: "string \<Rightarrow> string" where
  "formatNoteForStrudel n =
     (case n of
        [] \<Rightarrow> toLowerCase n
      | c # rest \<Rightarrow>
          if \<not> isLetterAG c then toLowerCase n
          else (case rest of
                  [] \<Rightarrow> toLowerCase n
                | a # ds \<Rightarrow>
                    if isAccidental a \<and> isDigits ds
                    then toLowerCase [c] @ (if a = CHR ''#'' then ''s'' else ''f'') @ ds
                    else if isDigits rest then toLowerCase [c] @ rest
                    else toLowerCase n))"

text \<open>
  \<open>beatDuration = (60 / tempo) * (4 / noteValue)\<close>, where \<open>noteValue\<close> is the second
  piece of the time signature. \<open>None\<close> is NaN. Where JavaScript divides by zero and
  gets an infinite beat duration, HOL gets 0; in both, the duration in beats computed
  from it below is 0.
\<close>

definition beatDurationOf :: "int \<Rightarrow> string \<Rightarrow> real option" where
  "beatDurationOf tempo' timeSignature =
     (case splitOn (CHR ''/'') timeSignature of
        _ # nv # _ \<Rightarrow>
          (case jsNumber nv of
             None \<Rightarrow> None
           | Some noteValue \<Rightarrow> Some ((60 / real_of_int tempo') * (4 / noteValue)))
      | _ \<Rightarrow> None)"

text \<open>The multiplier suffix of a token; a comparison with NaN is false.\<close>

definition withDuration :: "real option \<Rightarrow> string \<Rightarrow> real option \<Rightarrow> string" where
  "withDuration beatDuration formatted dur =
     (case dur of
        None \<Rightarrow> formatted
      | Some d \<Rightarrow>
          if d = 0 then formatted
          else (case beatDuration of
                  None \<Rightarrow> formatted
                | Some bd \<Rightarrow>
                    let durationBeats = d / bd
                    in if \<bar>durationBeats - 0.5\<bar> < 0.1 then formatted @ ''*0.5''
                       else if \<bar>durationBeats - 1\<bar> < 0.1 then formatted
                       else if \<bar>durationBeats - 2\<bar> < 0.1 then formatted @ ''*2''
                       else if \<bar>durationBeats - 4\<bar> < 0.1 then formatted @ ''*4''
                       else formatted))"

definition melodyToken :: "real option \<Rightarrow> Note \<Rightarrow> string" where
  "melodyToken beatDuration n = withDuration beatDuration (formatNoteForStrudel (pitch n)) (duration n)"

definition chordToken :: "real option \<Rightarrow> Chord \<Rightarrow> string" where
  "chordToken beatDuration chord =
     withDuration beatDuration
       (''['' @ joinWith '','' (map formatNoteForStrudel (chordNotes chord)) @ '']'')
       (chordDuration chord)"

subsection \<open>The three outputs\<close>

definition notePattern :: "string \<Rightarrow> string" where
  \<open>notePattern p = ''note("'' @ p @ ''").sound("piano")''\<close>

text \<open>The rest-only pattern: \<open>~\<close> is the rest of the pattern notation.\<close>

definition restPattern :: string where
  \<open>restPattern = ''note("~").sound("piano")''\<close>

definition newline :: string where
  "newline = [char_of (10::nat)]"

definition generateStrudelCode :: "Note list \<Rightarrow> Chord list \<Rightarrow> int \<Rightarrow> string \<Rightarrow> StrudelCode" where
  "generateStrudelCode melody chords tempo' timeSignature =
     (let beatDuration = beatDurationOf tempo' timeSignature;
          melodyWithDuration = joinWith '' '' (map (melodyToken beatDuration) melody);
          melodyStrudel = (if length melody > 0 then notePattern melodyWithDuration else restPattern);
          chordWithDuration = joinWith '' '' (map (chordToken beatDuration) chords);
          chordStrudel = (if length chords > 0 then notePattern chordWithDuration else restPattern);
          combined =
            ''// Tempo: '' @ showInt tempo' @ '' BPM, Time Signature: '' @ timeSignature @ newline
            @ ''// Melody: '' @ showNat (length melody) @ '' notes, Chords: ''
            @ showNat (length chords) @ '' chords'' @ newline
            @ ''stack('' @ newline
            @ ''  '' @ melodyStrudel @ '','' @ newline
            @ ''  '' @ chordStrudel @ newline
            @ '').cpm('' @ showInt (round (real_of_int tempo' / 4)) @ '')''
      in \<lparr>melodyCode = melodyStrudel, chordsCode = chordStrudel, combinedCode = combined\<rparr>)"

text \<open>Three quarter notes at 120 beats per minute, and a chord of one beat.\<close>

definition strudelExample_melody :: "Note list" where
  "strudelExample_melody =
     [\<lparr>pitch = ''c4'', time = 0, duration = Some (1/2), velocity = None\<rparr>,
      \<lparr>pitch = ''F#4'', time = 1/2, duration = Some 1, velocity = None\<rparr>,
      \<lparr>pitch = ''rest'', time = 3/2, duration = Some (1/4), velocity = None\<rparr>]"

section \<open>Key estimator (\<open>detectKey\<close>)\<close>

definition majorProfile :: "real list" where
  "majorProfile = [6.35, 2.23, 3.48, 2.33, 4.38, 4.09, 2.52, 5.19, 2.39, 3.66, 2.29, 2.88]"

definition minorProfile :: "real list" where
  "minorProfile = [6.33, 2.68, 3.52, 5.38, 2.60, 3.53, 2.54, 4.75, 3.98, 2.69, 3.34, 3.17]"

definition keyNames :: "string list" where
  "keyNames = [''C'', ''C#'', ''D'', ''D#'', ''E'', ''F'', ''F#'', ''G'', ''G#'', ''A'', ''A#'', ''B'']"

text \<open>
  \<open>bestCorr\<close> starts at \<open>-Infinity\<close>, which is \<open>None\<close> here; \<open>exceeds x best\<close> is the test
  \<open>x > bestCorr\<close>.
\<close>

definition exceeds :: "real \<Rightarrow> real option \<Rightarrow> bool" where
  "exceeds x best = (case best of None \<Rightarrow> True | Some y \<Rightarrow> x > y)"

subsection \<open>The single-file page: from the pitch-class histogram\<close>

definition normalize :: "real list \<Rightarrow> real list" where
  "normalize arr = (let s = foldl (+) 0 arr in if s > 0 then map (\<lambda>v. v / s) arr else arr)"

text \<open>\<open>profile.map((_, i) => profile[(i + shift) % 12])\<close>.\<close>

definition shiftProfile :: "real list \<Rightarrow> nat \<Rightarrow> real list" where
  "shiftProfile profile shift = map (\<lambda>i. profile ! ((i + shift) mod 12)) [0..<length profile]"

text \<open>The sum of the twelve products; both lists have twelve entries.\<close>

definition dot12 :: "real list \<Rightarrow> real list \<Rightarrow> real" where
  "dot12 xs ys = foldl (\<lambda>acc i. acc + xs ! i * ys ! i) 0 [0..<12]"

definition keyStep :: "real list \<Rightarrow> string \<times> real option \<Rightarrow> nat \<Rightarrow> string \<times> real option" where
  "keyStep normalizedHist best shift =
     (let majorCorr = dot12 normalizedHist (normalize (shiftProfile majorProfile shift));
          minorCorr = dot12 normalizedHist (normalize (shiftProfile minorProfile shift));
          best1 = (if exceeds majorCorr (snd best) then (keyNames ! shift, Some majorCorr) else best);
          best2 = (if exceeds minorCorr (snd best1) then (keyNames ! shift @ ''m'', Some minorCorr)
                   else best1)
      in best2)"

definition detectKey :: "real list \<Rightarrow> string" where
  "detectKey pitchClassHistogram =
     fst (foldl (keyStep (normalize pitchClassHistogram)) (''C'', None) [0..<12])"

subsection \<open>The batch page: from the notes\<close>

definition noteNames :: "string list" where
  "noteNames = [''c'', ''cs'', ''d'', ''ds'', ''e'', ''f'', ''fs'', ''g'', ''gs'', ''a'', ''as'', ''b'']"

text \<open>\<open>xs.indexOf(x)\<close>, with \<open>None\<close> for \<open>-1\<close>.\<close>

fun indexOf :: "'a list \<Rightarrow> 'a \<Rightarrow> nat option" where
  "indexOf [] x = None"
| "indexOf (y # ys) x = (if y = x then Some 0 else map_option Suc (indexOf ys x))"

definition isNameChar :: "char \<Rightarrow> bool" where
  "isNameChar c = (c \<in> set ''abcdefgs'')"

text \<open>
  \<open>note.note.match(/^([a-gs]+)(\d+)$/)\<close>: one character or more out of a to g and s,
  then digits up to the end. The result is the first capture group.
\<close>

definition matchChromaName :: "string \<Rightarrow> string option" where
  "matchChromaName n =
     (let nm = takeWhile isNameChar n; rest = dropWhile isNameChar n
      in if nm \<noteq> [] \<and> isDigits rest then Some nm else None)"

definition chromaStep :: "real list \<Rightarrow> Note \<Rightarrow> real list" where
  "chromaStep chromaCounts n =
     (case matchChromaName (pitch n) of
        None \<Rightarrow> chromaCounts
      | Some nm \<Rightarrow>
          (case indexOf noteNames (toLowerCase nm) of
             None \<Rightarrow> chromaCounts
           | Some noteIndex \<Rightarrow>
               chromaCounts[noteIndex := chromaCounts ! noteIndex
                  + orElse (duration n) 0.25 * orElse (velocity n) 0.8]))"

definition chromaOf :: "Note list \<Rightarrow> real list" where
  "chromaOf ns = foldl chromaStep (replicate 12 0) ns"

definition toUpperChar :: "char \<Rightarrow> char" where
  "toUpperChar c =
     (let k = (of_char c :: nat) in if 97 \<le> k \<and> k \<le> 122 then char_of (k - 32) else c)"

text \<open>\<open>s.replace(a, b)\<close> for one-character strings: the first occurrence only.\<close>

fun replaceFirst :: "char \<Rightarrow> char \<Rightarrow> string \<Rightarrow> string" where
  "replaceFirst a b [] = []"
| "replaceFirst a b (x # xs) = (if x = a then b # xs else x # replaceFirst a b xs)"

text \<open>\<open>noteNames[i].toUpperCase().replace("S", "#")\<close>.\<close>

definition keyLabel :: "nat \<Rightarrow> string" where
  "keyLabel i = replaceFirst (CHR ''S'') (CHR ''#'') (map toUpperChar (noteNames ! i))"

definition keyStepBatch :: "real list \<Rightarrow> string \<times> real option \<Rightarrow> nat \<Rightarrow> string \<times> real option" where
  "keyStepBatch chromaCounts best i =
     (let rotatedCounts = drop i chromaCounts @ take i chromaCounts;
          majorCorr = dot12 rotatedCounts majorProfile;
          minorCorr = dot12 rotatedCounts minorProfile;
          best1 = (if exceeds majorCorr (snd best) then (keyLabel i, Some majorCorr) else best);
          best2 = (if exceeds minorCorr (snd best1) then (keyLabel i @ ''m'', Some minorCorr)
                   else best1)
      in best2)"

definition keyOfChroma :: "real list \<Rightarrow> string" where
  "keyOfChroma chromaCounts = fst (foldl (keyStepBatch chromaCounts) (''C'', None) [0..<12])"

definition detectKeyBatch :: "Note list \<Rightarrow> string" where
  "detectKeyBatch ns = keyOfChroma (chromaOf ns)"

section \<open>Tempo estimator (\<open>detectTempo\<close>)\<close>

subsection \<open>The single-file page: periodicity scoring\<close>

text \<open>
  The start indices of \<open>for (let i = 0; i < limit; i += hop)\<close>, for the positive constant
  hops of the source (512 and 2048). The limit is \<open>data.length - frameSize\<close> and may be
  negative.
\<close>

function frameStarts :: "nat \<Rightarrow> nat \<Rightarrow> int \<Rightarrow> nat list" where
  "frameStarts hop i limit =
     (if 0 < hop \<and> int i < limit then i # frameStarts hop (i + hop) limit else [])"
  by pat_completeness auto
termination
  by (relation "measure (\<lambda>(hop, i, limit). nat (limit - int i))") auto

declare frameStarts.simps [simp del]

definition frameEnergy :: "real list \<Rightarrow> nat \<Rightarrow> nat \<Rightarrow> real" where
  "frameEnergy samples frameSize i =
     sqrt (foldl (\<lambda>energy j. energy + samples ! (i + j) * samples ! (i + j)) 0 [0..<frameSize]
           / real frameSize)"

definition onsetStrengthOf :: "real list \<Rightarrow> real list" where
  "onsetStrengthOf energies =
     map (\<lambda>i. max 0 (energies ! i - energies ! (i - 1))) [1..<length energies]"

text \<open>
  The innermost loop \<open>for (let beat = offset; beat < onsetStrength.length; beat +=
  beatInterval)\<close>. It is only entered from the loop over the offsets, where
  \<open>0 \<le> offset < beatInterval\<close>; the test \<open>0 < beatInterval\<close> records that.
\<close>

function beatLoop :: "real \<Rightarrow> real list \<Rightarrow> real \<Rightarrow> real \<Rightarrow> real" where
  "beatLoop beatInterval onsetStrength beat tempScore =
     (if 0 < beatInterval \<and> beat < real (length onsetStrength)
      then beatLoop beatInterval onsetStrength (beat + beatInterval)
             (let index = nat \<lfloor>beat\<rfloor>
              in if index < length onsetStrength then tempScore + onsetStrength ! index
                 else tempScore)
      else tempScore)"
  by pat_completeness auto
termination
proof (relation "measure (\<lambda>(bi, os, beat, ts). nat \<lceil>(real (length os) - beat) / bi\<rceil>)")
  show "wf (measure (\<lambda>(bi, os, beat, ts). nat \<lceil>(real (length os) - beat) / bi\<rceil>))"
    by simp
next
  fix beatInterval :: real and onsetStrength :: "real list" and beat tempScore x :: real
  assume a: "0 < beatInterval \<and> beat < real (length onsetStrength)"
  let ?q = "(real (length onsetStrength) - beat) / beatInterval"
  have step: "(real (length onsetStrength) - (beat + beatInterval)) / beatInterval = ?q - 1"
    using a by (simp add: field_simps)
  have "0 < ?q" using a by simp
  then have "0 < \<lceil>?q\<rceil>" by simp
  then have "nat (\<lceil>?q\<rceil> - 1) < nat \<lceil>?q\<rceil>" by linarith
  then show "((beatInterval, onsetStrength, beat + beatInterval, x),
              (beatInterval, onsetStrength, beat, tempScore))
             \<in> measure (\<lambda>(bi, os, beat, ts). nat \<lceil>(real (length os) - beat) / bi\<rceil>)"
    by (simp add: step)
qed

declare beatLoop.simps [simp del]

text \<open>\<open>for (let offset = 0; offset < beatInterval; offset++)\<close>, keeping the best score.\<close>

function offsetLoop :: "real \<Rightarrow> real list \<Rightarrow> nat \<Rightarrow> real \<Rightarrow> real" where
  "offsetLoop beatInterval onsetStrength offset score =
     (if real offset < beatInterval
      then offsetLoop beatInterval onsetStrength (Suc offset)
             (max score (beatLoop beatInterval onsetStrength (real offset) 0))
      else score)"
  by pat_completeness auto
termination
proof (relation "measure (\<lambda>(bi, os, offset, score). nat \<lceil>bi\<rceil> - offset)")
  show "wf (measure (\<lambda>(bi, os, offset, score). nat \<lceil>bi\<rceil> - offset))"
    by simp
next
  fix beatInterval :: real and onsetStrength :: "real list" and offset :: nat and score :: real
  assume "real offset < beatInterval"
  then have "int offset < \<lceil>beatInterval\<rceil>" by linarith
  then show "((beatInterval, onsetStrength, Suc offset,
               max score (beatLoop beatInterval onsetStrength (real offset) 0)),
              (beatInterval, onsetStrength, offset, score))
             \<in> measure (\<lambda>(bi, os, offset, score). nat \<lceil>bi\<rceil> - offset)"
    by simp
qed

declare offsetLoop.simps [simp del]

text \<open>The body of \<open>for (let bpm = minBpm; bpm <= maxBpm; bpm++)\<close> on the pair \<open>(bestBpm, bestScore)\<close>.\<close>

definition tempoStep :: "real \<Rightarrow> real list \<Rightarrow> nat \<times> real \<Rightarrow> nat \<Rightarrow> nat \<times> real" where
  "tempoStep framesPerSecond onsetStrength best bpm =
     (let beatInterval = (60 / real bpm) * framesPerSecond;
          score = offsetLoop beatInterval onsetStrength 0 0
      in if score > snd best then (bpm, score) else best)"

definition detectTempo :: "real list \<Rightarrow> real \<Rightarrow> nat" where
  "detectTempo samples sampleRate =
     (let frameSize = 1024;
          hopSize = 512;
          energies = map (frameEnergy samples frameSize)
                         (frameStarts hopSize 0 (int (length samples) - int frameSize));
          onsetStrength = onsetStrengthOf energies;
          framesPerSecond = sampleRate / real hopSize
      in fst (foldl (tempoStep framesPerSecond onsetStrength) (120, 0) [60..<201]))"

subsection \<open>The batch page: onset intervals\<close>

definition windowEnergy :: "real list \<Rightarrow> int \<Rightarrow> int \<Rightarrow> real" where
  "windowEnergy channelData windowSize i =
     foldl (\<lambda>energy j. energy + channelData ! nat (i + int j) * channelData ! nat (i + int j)) 0
       [0..<nat windowSize]"

text \<open>
  \<open>for (let i = 0; i < channelData.length - windowSize; i += windowSize)\<close>. The window
  size is computed from the sample rate; where it is not positive the loop does not end,
  and the value is \<open>None\<close>.
\<close>

partial_function (option) energyLoop :: "real list \<Rightarrow> int \<Rightarrow> int \<Rightarrow> real list \<Rightarrow> real list option" where
  "energyLoop channelData windowSize i energyValues =
     (if i < int (length channelData) - windowSize
      then energyLoop channelData windowSize (i + windowSize)
             (energyValues @ [windowEnergy channelData windowSize i])
      else Some energyValues)"

definition onsetsOf :: "real list \<Rightarrow> int \<Rightarrow> real \<Rightarrow> real list" where
  "onsetsOf energyValues windowSize sampleRate =
     map (\<lambda>i. real i * real_of_int windowSize / sampleRate)
       (filter (\<lambda>i. energyValues ! i > energyValues ! (i - 1) * 1.5 \<and> energyValues ! i > 0.01)
          [1..<length energyValues])"

definition intervalsOf :: "real list \<Rightarrow> real list" where
  "intervalsOf onsets = map (\<lambda>i. onsets ! i - onsets ! (i - 1)) [1..<length onsets]"

text \<open>\<open>while (tempo < 60) tempo *= 2\<close> and \<open>while (tempo > 200) tempo /= 2\<close>.\<close>

partial_function (option) doubleUp :: "real \<Rightarrow> real option" where
  "doubleUp t = (if t < 60 then doubleUp (t * 2) else Some t)"

partial_function (option) halveDown :: "real \<Rightarrow> real option" where
  "halveDown t = (if t > 200 then halveDown (t / 2) else Some t)"

definition detectTempoBatch :: "real list \<Rightarrow> real \<Rightarrow> int option" where
  "detectTempoBatch channelData sampleRate =
     (let windowSize = \<lfloor>sampleRate * 0.05\<rfloor>
      in case energyLoop channelData windowSize 0 [] of
           None \<Rightarrow> None
         | Some energyValues \<Rightarrow>
             (let onsets = onsetsOf energyValues windowSize sampleRate
              in if length onsets < 2 then Some 120
                 else (let intervals = intervalsOf onsets;
                           avgInterval = foldl (+) 0 intervals / real (length intervals)
                       in case doubleUp (60 / avgInterval) of
                            None \<Rightarrow> None
                          | Some t1 \<Rightarrow>
                              (case halveDown t1 of
                                 None \<Rightarrow> None
                               | Some t2 \<Rightarrow> Some (round t2)))))"

section \<open>Pitch detector and note segmenter\<close>

subsection \<open>Pitch detector (\<open>detectPitch\<close>)\<close>

text \<open>The inner loop: the sum of \<open>frame[i] * frame[i + period]\<close> for \<open>i < frame.length - period\<close>.\<close>

definition autoCorr :: "real list \<Rightarrow> nat \<Rightarrow> real" where
  "autoCorr frame period =
     foldl (\<lambda>corr i. corr + frame ! i * frame ! (i + period)) 0 [0..<length frame - period]"

text \<open>The body of the loop over the periods, on the pair \<open>(maxCorr, bestPeriod)\<close>.\<close>

definition pitchStep :: "real list \<Rightarrow> real \<times> nat \<Rightarrow> nat \<Rightarrow> real \<times> nat" where
  "pitchStep frame best period =
     (let corr = autoCorr frame period in if corr > fst best then (corr, period) else best)"

text \<open>The sample rate is positive, so both period bounds are natural numbers.\<close>

definition detectPitch :: "real list \<Rightarrow> real \<Rightarrow> real" where
  "detectPitch frame sampleRate =
     (let minPeriod = nat \<lfloor>sampleRate / 1000\<rfloor>;
          maxPeriod = nat \<lfloor>sampleRate / 80\<rfloor>;
          bestPeriod = snd (foldl (pitchStep frame) (0, 0) [minPeriod..<maxPeriod])
      in if bestPeriod > 0 then sampleRate / real bestPeriod else 0)"

text \<open>
  The batch page's detector also stops at \<open>period < frame.length / 2\<close>, that is at
  \<open>period < (frame.length + 1) div 2\<close>.
\<close>

definition detectPitchBatch :: "real list \<Rightarrow> real \<Rightarrow> real" where
  "detectPitchBatch frame sampleRate =
     (let minPeriod = nat \<lfloor>sampleRate / 1000\<rfloor>;
          maxPeriod = nat \<lfloor>sampleRate / 80\<rfloor>;
          bestPeriod = snd (foldl (pitchStep frame) (0, 0)
                              [minPeriod..<min maxPeriod ((length frame + 1) div 2)])
      in if bestPeriod = 0 then 0 else sampleRate / real bestPeriod)"

subsection \<open>Pitch names\<close>

text \<open>The remainder operator \<open>%\<close> of JavaScript takes the sign of the dividend.\<close>

definition jsRemReal :: "real \<Rightarrow> real \<Rightarrow> real" where
  "jsRemReal x y = x - y * real_of_int (if 0 \<le> x / y then \<lfloor>x / y\<rfloor> else \<lceil>x / y\<rceil>)"

definition jsRemInt :: "int \<Rightarrow> int \<Rightarrow> int" where
  "jsRemInt a b = (if 0 \<le> a then a mod \<bar>b\<bar> else - ((- a) mod \<bar>b\<bar>))"

definition c0 :: real where
  "c0 = 440 * 2 powr (- 4.75)"

definition frequencyToNote :: "real \<Rightarrow> string" where
  "frequencyToNote freq =
     (if freq < 50 then ''rest''
      else let halfSteps = 12 * log 2 (freq / c0);
               octave = \<lfloor>halfSteps / 12\<rfloor>;
               noteNum = round (jsRemReal halfSteps 12);
               clampedNote = jsRemInt (jsRemInt noteNum 12 + 12) 12
           in noteNames ! nat clampedNote @ showInt octave)"

text \<open>The result \<open>-1\<close> stands for "no pitch class".\<close>

definition frequencyToPitchClass :: "real \<Rightarrow> int" where
  "frequencyToPitchClass freq =
     (if freq < 50 then - 1
      else let halfSteps = 12 * log 2 (freq / c0)
           in jsRemInt (jsRemInt (round halfSteps) 12 + 12) 12)"

definition frequencyToNoteBatch :: "real \<Rightarrow> string" where
  "frequencyToNoteBatch frequency =
     (if frequency \<le> 0 then ''''
      else let halfStepsFromA4 = 12 * log 2 (frequency / 440);
               noteIndex = round halfStepsFromA4 + 57
           in if noteIndex < 0 \<or> noteIndex > 127 then ''''
              else noteNames ! nat (jsRemInt noteIndex 12) @ showInt \<lfloor>real_of_int noteIndex / 12\<rfloor>)"

subsection \<open>Segmenter of the single-file page (\<open>extractMelody\<close>)\<close>

record AnalysisParams =
  autoDetectTempo :: bool
  targetTempo :: real
  autoDetectKey :: bool
  targetKey :: string
  timeSignature :: string
  minNoteDuration :: real
  pitchSensitivity :: real
  quantizeNotesOn :: bool
  quantizeValue :: string

text \<open>
  The variables the loop carries: \<open>lastNote\<close> (the empty string while no note is in
  progress), \<open>noteStartTime\<close>, the notes pushed so far and the histogram.
\<close>

record SegState =
  lastNote :: string
  noteStartTime :: real
  segNotes :: "Note list"
  histogram :: "real list"

definition rmsOf :: "real list \<Rightarrow> real" where
  "rmsOf frame = sqrt (foldl (\<lambda>acc x. acc + x * x) 0 frame / real (length frame))"

text \<open>
  The block that closes the note in progress at \<open>endTime\<close>; it stands three times in
  the source. The note is pushed when its duration is strictly greater than the minimum,
  and it has no velocity field.
\<close>

definition closeNote :: "real \<Rightarrow> real \<Rightarrow> SegState \<Rightarrow> Note list" where
  "closeNote minDuration endTime st =
     (if lastNote st \<noteq> [] \<and> lastNote st \<noteq> ''rest''
      then (let dur = endTime - noteStartTime st
            in if dur > minDuration
               then segNotes st @ [\<lparr>pitch = lastNote st, time = noteStartTime st,
                                     duration = Some dur, velocity = None\<rparr>]
               else segNotes st)
      else segNotes st)"

text \<open>
  One pass of the loop body, for the frame that starts at sample \<open>i\<close>, has the amplitude
  \<open>rms\<close> and the detected frequency \<open>freq\<close>.
\<close>

definition segmentStep :: "real \<Rightarrow> real \<Rightarrow> real \<Rightarrow> SegState \<Rightarrow> nat \<times> real \<times> real \<Rightarrow> SegState" where
  "segmentStep rmsThreshold minDuration sampleRate st obs =
     (case obs of (i, rms, freq) \<Rightarrow>
        if rms < rmsThreshold
        then (if lastNote st \<noteq> [] \<and> lastNote st \<noteq> ''rest''
              then st\<lparr>segNotes := closeNote minDuration (real i / sampleRate) st, lastNote := []\<rparr>
              else st)
        else (let noteStr = frequencyToNote freq;
                  pitchClass = frequencyToPitchClass freq;
                  st1 = (if pitchClass \<ge> 0
                         then st\<lparr>histogram := (histogram st)
                                  [nat pitchClass := histogram st ! nat pitchClass + rms]\<rparr>
                         else st)
              in if noteStr \<noteq> ''rest'' \<and> noteStr \<noteq> lastNote st1
                 then st1\<lparr>segNotes := closeNote minDuration (real i / sampleRate) st1,
                          lastNote := noteStr, noteStartTime := real i / sampleRate\<rparr>
                 else st1))"

text \<open>What the loop computes of the frame at \<open>i\<close>: \<open>data.slice(i, i + frameSize)\<close>, its amplitude and its pitch.\<close>

definition observeFrame :: "nat \<Rightarrow> real list \<Rightarrow> real \<Rightarrow> nat \<Rightarrow> nat \<times> real \<times> real" where
  "observeFrame frameSize samples sampleRate i =
     (let frame = take frameSize (drop i samples)
      in (i, rmsOf frame, detectPitch frame sampleRate))"

definition initialState :: SegState where
  "initialState = \<lparr>lastNote = [], noteStartTime = 0, segNotes = [], histogram = replicate 12 0\<rparr>"

text \<open>The state after the loop over the frames.\<close>

definition segmentFrames :: "real list \<Rightarrow> real \<Rightarrow> AnalysisParams \<Rightarrow> SegState" where
  "segmentFrames samples sampleRate params =
     (let hopSize = 2048;
          frameSize = 4096;
          rmsThreshold = 0.01 * (pitchSensitivity params / 100);
          minDuration = minNoteDuration params / 1000
      in foldl (segmentStep rmsThreshold minDuration sampleRate) initialState
           (map (observeFrame frameSize samples sampleRate)
                (frameStarts hopSize 0 (int (length samples) - int frameSize))))"

text \<open>The array \<open>notes\<close> after the final flush, before \<open>slice(0, 64)\<close>.\<close>

definition segmentedNotes :: "real list \<Rightarrow> real \<Rightarrow> AnalysisParams \<Rightarrow> Note list" where
  "segmentedNotes samples sampleRate params =
     closeNote (minNoteDuration params / 1000) (real (length samples) / sampleRate)
       (segmentFrames samples sampleRate params)"

record MelodyResult =
  extractedNotes :: "Note list"
  pitchClassHistogram :: "real list"

definition extractMelody :: "real list \<Rightarrow> real \<Rightarrow> AnalysisParams \<Rightarrow> MelodyResult" where
  "extractMelody samples sampleRate params =
     \<lparr>extractedNotes = take 64 (segmentedNotes samples sampleRate params),
      pitchClassHistogram = histogram (segmentFrames samples sampleRate params)\<rparr>"

text \<open>The melody of the analysis result, as \<open>analyzeAudio\<close> builds it.\<close>

definition pipelineMelody :: "real list \<Rightarrow> real \<Rightarrow> AnalysisParams \<Rightarrow> Note list" where
  "pipelineMelody samples sampleRate params =
     (let estimatedTempo = (if autoDetectTempo params then real (detectTempo samples sampleRate)
                            else targetTempo params);
          rawMelody = extractedNotes (extractMelody samples sampleRate params)
      in if quantizeNotesOn params
         then quantizeNotes rawMelody estimatedTempo (quantizeValue params)
         else rawMelody)"

definition defaultAnalysisParams :: AnalysisParams where
  "defaultAnalysisParams =
     \<lparr>autoDetectTempo = True, targetTempo = 120, autoDetectKey = True, targetKey = ''C'',
      timeSignature = ''4/4'', minNoteDuration = 50, pitchSensitivity = 70,
      quantizeNotesOn = True, quantizeValue = ''1/16''\<rparr>"

subsection \<open>Segmenter of the batch page (the loop of \<open>analyzeAudioFile\<close>)\<close>

text \<open>
  Here a closed note is pushed when its duration is at least the minimum, with the
  velocity \<open>Math.min(1, rms * 10)\<close> of the frame that closes it.
\<close>

definition closeNoteBatch :: "real \<Rightarrow> real \<Rightarrow> real \<Rightarrow> SegState \<Rightarrow> Note list" where
  "closeNoteBatch minNoteDurationSec endTime vel st =
     (if lastNote st \<noteq> []
      then (let dur = endTime - noteStartTime st
            in if dur \<ge> minNoteDurationSec
               then segNotes st @ [\<lparr>pitch = lastNote st, time = noteStartTime st,
                                     duration = Some dur, velocity = Some vel\<rparr>]
               else segNotes st)
      else segNotes st)"

definition batchStep :: "real \<Rightarrow> real \<Rightarrow> real \<Rightarrow> SegState \<Rightarrow> nat \<times> real \<times> real \<Rightarrow> SegState" where
  "batchStep minAmplitude minNoteDurationSec sampleRate st obs =
     (case obs of (i, rms, frequency) \<Rightarrow>
        if rms < minAmplitude
        then (if lastNote st \<noteq> []
              then st\<lparr>segNotes := closeNoteBatch minNoteDurationSec (real i / sampleRate)
                                      (min 1 (rms * 10)) st,
                       lastNote := []\<rparr>
              else st)
        else if frequency < 80 \<or> frequency > 2000 then st
        else (let noteStr = frequencyToNoteBatch frequency
              in if noteStr \<noteq> lastNote st
                 then st\<lparr>segNotes := closeNoteBatch minNoteDurationSec (real i / sampleRate)
                                         (min 1 (rms * 10)) st,
                          lastNote := noteStr, noteStartTime := real i / sampleRate\<rparr>
                 else st))"

definition observeFrameBatch :: "nat \<Rightarrow> real list \<Rightarrow> real \<Rightarrow> nat \<Rightarrow> nat \<times> real \<times> real" where
  "observeFrameBatch frameSize samples sampleRate i =
     (let frame = take frameSize (drop i samples)
      in (i, rmsOf frame, detectPitchBatch frame sampleRate))"

text \<open>The array \<open>notes\<close> of \<open>analyzeAudioFile\<close>; the buffer's duration is its length over the sample rate.\<close>

definition batchNotes :: "real list \<Rightarrow> real \<Rightarrow> AnalysisParams \<Rightarrow> Note list" where
  "batchNotes channelData sampleRate params =
     (let frameSize = 2048;
          hopSize = 512;
          minAmplitude = (100 - pitchSensitivity params) / 1000;
          minNoteDurationSec = minNoteDuration params / 1000;
          st = foldl (batchStep minAmplitude minNoteDurationSec sampleRate)
                 (initialState\<lparr>histogram := []\<rparr>)
                 (map (observeFrameBatch frameSize channelData sampleRate)
                      (frameStarts hopSize 0 (int (length channelData) - int frameSize)))
      in closeNoteBatch minNoteDurationSec (real (length channelData) / sampleRate) 0.8 st)"

subsection \<open>What an emitted note looks like\<close>

text \<open>
  The velocities the batch loop gives: 0.8 at the final flush and, for a note closed at
  a frame, \<open>Math.min(1, rms * 10)\<close> of that frame.
\<close>

definition batchVelocities :: "real list \<Rightarrow> real list" where
  "batchVelocities channelData =
     0.8 # map (\<lambda>i. min 1 (rmsOf (take 2048 (drop i channelData)) * 10))
               (frameStarts 512 0 (int (length channelData) - int 2048))"

text \<open>
  A note as \<open>extractMelody\<close> pushes it: no velocity, and a duration strictly above the
  minimum. A note as the batch loop pushes it: a velocity between 0 and 1 that is one of
  the given ones, and a duration of at least the minimum.
\<close>

definition emittedPlain :: "real \<Rightarrow> Note \<Rightarrow> bool" where
  "emittedPlain minDuration n =
     (velocity n = None \<and> (case duration n of None \<Rightarrow> False | Some d \<Rightarrow> minDuration < d))"

definition emittedWithVelocity :: "real list \<Rightarrow> real \<Rightarrow> Note \<Rightarrow> bool" where
  "emittedWithVelocity velocities minDuration n =
     ((case velocity n of None \<Rightarrow> False
       | Some v \<Rightarrow> v \<in> set velocities \<and> 0 \<le> v \<and> v \<le> 1) \<and>
      (case duration n of None \<Rightarrow> False | Some d \<Rightarrow> minDuration \<le> d))"

text \<open>A state of the loop with the note \<open>a4\<close> in progress since time 0.\<close>

definition inProgressA4 :: SegState where
  "inProgressA4 =
     \<lparr>lastNote = ''a4'', noteStartTime = 0, segNotes = [], histogram = replicate 12 0\<rparr>"

text \<open>
  A buffer of 8193 samples, all 0 but three runs of the value 1: a hundred samples from
  0, ten from 3000 and a hundred from 6144. Its three frames start at 0, 2048 and 4096.
\<close>

definition inRuns :: "nat \<Rightarrow> bool" where
  "inRuns k = (k < 100 \<or> (3000 \<le> k \<and> k < 3010) \<or> (6144 \<le> k \<and> k < 6244))"

definition threeRuns :: "nat \<Rightarrow> real" where
  "threeRuns k = (if inRuns k then 1 else 0)"

definition threeRunsBuffer :: "real list" where
  "threeRunsBuffer = map threeRuns [0..<8193]"


chapter \<open>Verified properties\<close>

section \<open>Sequence file encoder\<close>

subsection \<open>Pitch names\<close>

lemma parseNote_None_iff: "parseNote s = None \<longleftrightarrow> \<not> matchesPitchName s"
proof (cases s)
  case Nil
  then show ?thesis by (simp add: matchesPitchName_def)
next
  case (Cons c r)
  have nodigit: "\<not> isDigit x" if "isSharpS x" for x
    using that by (auto simp: isSharpS_def isDigit_def)
  show ?thesis
  proof (cases r)
    case Nil
    with Cons show ?thesis by (simp add: matchesPitchName_def isDigits_def)
  next
    case rcons: (Cons x ds)
    with Cons nodigit[of x] show ?thesis
      by (auto simp: matchesPitchName_def isDigits_def)
  qed
qed

lemma matchesPitchName_shape:
  "matchesPitchName s \<longleftrightarrow>
     (\<exists>c sh ds. s = c # sh @ ds \<and> isLetterAG c \<and> (sh = [] \<or> sh = ''s'' \<or> sh = ''S'')
        \<and> ds \<noteq> [] \<and> (\<forall>d \<in> set ds. isDigit d))"
proof
  assume m: "matchesPitchName s"
  then obtain c r where s: "s = c # r" and c: "isLetterAG c"
    by (auto simp: matchesPitchName_def split: list.splits)
  from m s have "isDigits r \<or> (\<exists>x ds. r = x # ds \<and> isSharpS x \<and> isDigits ds)"
    by (auto simp: matchesPitchName_def split: list.splits)
  then show "\<exists>c sh ds. s = c # sh @ ds \<and> isLetterAG c \<and> (sh = [] \<or> sh = ''s'' \<or> sh = ''S'')
        \<and> ds \<noteq> [] \<and> (\<forall>d \<in> set ds. isDigit d)"
  proof
    assume "isDigits r"
    with s c have "s = c # [] @ r \<and> isLetterAG c \<and> r \<noteq> [] \<and> (\<forall>d \<in> set r. isDigit d)"
      by (simp add: isDigits_def list_all_iff)
    then show ?thesis by blast
  next
    assume "\<exists>x ds. r = x # ds \<and> isSharpS x \<and> isDigits ds"
    then obtain x ds where r: "r = x # ds" and x: "isSharpS x" and ds: "isDigits ds"
      by blast
    with s c have "s = c # [x] @ ds \<and> isLetterAG c \<and> ([x] = ''s'' \<or> [x] = ''S'')
        \<and> ds \<noteq> [] \<and> (\<forall>d \<in> set ds. isDigit d)"
      by (simp add: isDigits_def list_all_iff isSharpS_def)
    then show ?thesis by blast
  qed
next
  assume "\<exists>c sh ds. s = c # sh @ ds \<and> isLetterAG c \<and> (sh = [] \<or> sh = ''s'' \<or> sh = ''S'')
        \<and> ds \<noteq> [] \<and> (\<forall>d \<in> set ds. isDigit d)"
  then obtain c sh ds where s: "s = c # sh @ ds" and c: "isLetterAG c"
      and sh: "sh = [] \<or> sh = ''s'' \<or> sh = ''S''" and ds: "ds \<noteq> []" "\<forall>d \<in> set ds. isDigit d"
    by blast
  from ds have "isDigits ds" by (simp add: isDigits_def list_all_iff)
  with s c sh show "matchesPitchName s"
    by (auto simp: matchesPitchName_def isSharpS_def)
qed

text \<open>
  Claim C10. The conversion of a pitch name to a numeric key is a total function, and on
  every string that is not a letter a to g (in either case), an optional \<open>s\<close> and octave
  digits it returns the key 60, middle C. The encoder has no failing branch: a malformed
  pitch name is encoded as key 60.
\<close>

theorem noteToMidi_malformed_is_60:
  "\<not> matchesPitchName s \<Longrightarrow> noteToMidi s = 60"
  using parseNote_None_iff[of s] by (simp add: noteToMidi_def)

theorem noteToMidi_malformed_is_60_witness:
  "\<not> matchesPitchName ''rest'' \<and> noteToMidi ''rest'' = 60"
proof -
  have h: "\<not> matchesPitchName ''rest''" by code_simp
  from noteToMidi_malformed_is_60[OF h] h show ?thesis by simp
qed

subsection \<open>Scenario D\<close>

text \<open>
  Claim C1, as stated, fails. The chord of scenario D lasts one second; at tempo 120 that
  is two beats, and at 480 ticks per beat \<open>timeToTicks\<close> gives 960. The three pitch-off
  events are at tick 960, and no event at all is at tick 480.
\<close>

theorem scenarioD_off_tick_counterexample:
  "map absoluteTick (filter isNoteOff (sortedEvents [] [scenarioD_chord] scenarioD_options))
     = [960, 960, 960]
   \<and> 480 \<notin> set (map absoluteTick (sortedEvents [] [scenarioD_chord] scenarioD_options))"
  by code_simp

text \<open>
  Claim C1, amended. Encoding the chord of scenario D at tempo 120 and 480 ticks per beat
  gives three pitch-on events at tick 0 on the chord channel (status \<open>0x91\<close>, keys 60, 64
  and 67, velocity 80) and the three matching pitch-off events (status \<open>0x81\<close>) at tick
  960. Their deltas are 0, 0, 0, 960, 0, 0, the delta 960 is written as the two bytes
  \<open>0x87 0x40\<close>, and the whole file is the byte sequence below.
\<close>

theorem scenarioD_encoding:
  "sortedEvents [] [scenarioD_chord] scenarioD_options =
     [\<lparr>absoluteTick = 0, data = [0x91, 60, 80]\<rparr>,
      \<lparr>absoluteTick = 0, data = [0x91, 64, 80]\<rparr>,
      \<lparr>absoluteTick = 0, data = [0x91, 67, 80]\<rparr>,
      \<lparr>absoluteTick = 960, data = [0x81, 60, 0]\<rparr>,
      \<lparr>absoluteTick = 960, data = [0x81, 64, 0]\<rparr>,
      \<lparr>absoluteTick = 960, data = [0x81, 67, 0]\<rparr>]
   \<and> deltaEncode 0 (sortedEvents [] [scenarioD_chord] scenarioD_options) =
     [\<lparr>delta = 0, eventData = [0x91, 60, 80]\<rparr>,
      \<lparr>delta = 0, eventData = [0x91, 64, 80]\<rparr>,
      \<lparr>delta = 0, eventData = [0x91, 67, 80]\<rparr>,
      \<lparr>delta = 960, eventData = [0x81, 60, 0]\<rparr>,
      \<lparr>delta = 0, eventData = [0x81, 64, 0]\<rparr>,
      \<lparr>delta = 0, eventData = [0x81, 67, 0]\<rparr>]
   \<and> writeVariableLengthQuantity 960 = [0x87, 0x40]
   \<and> exportMelodyToMidi [] [scenarioD_chord] scenarioD_options =
     [0x4D, 0x54, 0x68, 0x64, 0, 0, 0, 6, 0, 1, 0, 2, 0x01, 0xE0,
      0x4D, 0x54, 0x72, 0x6B, 0, 0, 0, 34,
      0, 0xFF, 0x51, 0x03, 0x07, 0xA1, 0x20,
      0, 0xFF, 0x58, 0x04, 0x04, 0x02, 0x18, 0x08,
      0, 0xFF, 0x03, 0x0B, 65, 117, 100, 105, 111, 32, 84, 114, 97, 99, 107,
      0, 0xFF, 0x2F, 0,
      0x4D, 0x54, 0x72, 0x6B, 0, 0, 0, 29,
      0, 0x91, 60, 80, 0, 0x91, 64, 80, 0, 0x91, 67, 80,
      0x87, 0x40, 0x81, 60, 0, 0, 0x81, 64, 0, 0, 0x81, 67, 0,
      0, 0xFF, 0x2F, 0]"
  by code_simp

subsection \<open>The merged event list is ordered\<close>

lemma compareEvents_le: "compareEvents a b \<le> 0 \<longleftrightarrow> evLe a b"
  by (auto simp: compareEvents_def evLe_def)

lemma evLe_total: "\<not> evLe a b \<Longrightarrow> evLe b a"
  by (auto simp: evLe_def)

lemma evLe_trans: "evLe a b \<Longrightarrow> evLe b c \<Longrightarrow> evLe a c"
  by (auto simp: evLe_def)

lemma set_insertBy: "set (insertBy cmp x xs) = insert x (set xs)"
  by (induction xs) auto

lemma mset_insertBy: "mset (insertBy cmp x xs) = add_mset x (mset xs)"
  by (induction xs) auto

lemma mset_sortBy: "mset (sortBy cmp xs) = mset xs"
  by (induction xs) (auto simp: sortBy_def mset_insertBy)

lemma sorted_insertBy:
  "sorted_wrt evLe xs \<Longrightarrow> sorted_wrt evLe (insertBy compareEvents x xs)"
proof (induction xs)
  case Nil
  then show ?case by simp
next
  case (Cons y ys)
  show ?case
  proof (cases "compareEvents x y \<le> 0")
    case True
    then have "evLe x y" by (simp add: compareEvents_le)
    with Cons.prems have "\<forall>z \<in> set (y # ys). evLe x z"
      by (auto intro: evLe_trans)
    with True Cons.prems show ?thesis by simp
  next
    case False
    then have "evLe y x" by (simp add: compareEvents_le evLe_total)
    with False Cons show ?thesis
      by (auto simp: set_insertBy)
  qed
qed

lemma sorted_sortBy: "sorted_wrt evLe (sortBy compareEvents xs)"
  by (induction xs) (auto simp: sortBy_def sorted_insertBy)

lemma on_xor_off_melody: "e \<in> set (melodyEvents t p n) \<Longrightarrow> isNoteOn e \<noteq> isNoteOff e"
  by (auto simp: melodyEvents_def Let_def isNoteOn_def isNoteOff_def toInt32_def)

lemma on_xor_off_chord: "e \<in> set (chordEvents t p c) \<Longrightarrow> isNoteOn e \<noteq> isNoteOff e"
  by (auto simp: chordEvents_def Let_def isNoteOn_def isNoteOff_def toInt32_def)

lemma on_xor_off: "e \<in> set (collectEvents m c opts) \<Longrightarrow> isNoteOn e \<noteq> isNoteOff e"
  by (auto simp: collectEvents_def Let_def dest: on_xor_off_melody on_xor_off_chord
           split: if_splits)

text \<open>
  Claim C8. The merged list holds exactly the collected events, each of them a pitch-on
  or a pitch-off event. It is in nondecreasing order of absolute tick, and where two of
  its events have the same tick a pitch-on event never stands before a pitch-off event:
  at one tick, the pitch-off events come first.
\<close>

theorem sortedEvents_off_before_on:
  "mset (sortedEvents melody chords options) = mset (collectEvents melody chords options) \<and>
   (\<forall>e \<in> set (sortedEvents melody chords options). isNoteOn e \<noteq> isNoteOff e) \<and>
   (\<forall>i j. i < j \<and> j < length (sortedEvents melody chords options) \<longrightarrow>
      absoluteTick (sortedEvents melody chords options ! i)
        \<le> absoluteTick (sortedEvents melody chords options ! j) \<and>
      \<not> (absoluteTick (sortedEvents melody chords options ! i)
           = absoluteTick (sortedEvents melody chords options ! j) \<and>
         isNoteOn (sortedEvents melody chords options ! i) \<and>
         isNoteOff (sortedEvents melody chords options ! j)))"
proof -
  let ?es = "sortedEvents melody chords options"
  have perm: "mset ?es = mset (collectEvents melody chords options)"
    by (simp add: sortedEvents_def mset_sortBy)
  then have same: "set ?es = set (collectEvents melody chords options)"
    by (rule mset_eq_setD)
  have kinds: "\<forall>e \<in> set ?es. isNoteOn e \<noteq> isNoteOff e"
    using same on_xor_off by blast
  have srt: "sorted_wrt evLe ?es"
    by (simp add: sortedEvents_def sorted_sortBy)
  have ord: "\<forall>i j. i < j \<and> j < length ?es \<longrightarrow>
      absoluteTick (?es ! i) \<le> absoluteTick (?es ! j) \<and>
      \<not> (absoluteTick (?es ! i) = absoluteTick (?es ! j)
           \<and> isNoteOn (?es ! i) \<and> isNoteOff (?es ! j))"
  proof (intro allI impI)
    fix i j assume ij: "i < j \<and> j < length ?es"
    then have le: "evLe (?es ! i) (?es ! j)"
      using srt by (simp add: sorted_wrt_iff_nth_less)
    have "?es ! i \<in> set ?es" using ij by simp
    then have "isNoteOn (?es ! i) \<noteq> isNoteOff (?es ! i)" using kinds by blast
    with le show "absoluteTick (?es ! i) \<le> absoluteTick (?es ! j) \<and>
      \<not> (absoluteTick (?es ! i) = absoluteTick (?es ! j)
           \<and> isNoteOn (?es ! i) \<and> isNoteOff (?es ! j))"
      by (auto simp: evLe_def)
  qed
  from perm kinds ord show ?thesis by blast
qed

theorem sortedEvents_off_before_on_witness:
  "sortedEvents tieExample_melody [] tieExample_options ! 1
     \<in> set (sortedEvents tieExample_melody [] tieExample_options) \<and>
   ((1::nat) < 2 \<and> 2 < length (sortedEvents tieExample_melody [] tieExample_options)) \<and>
   map absoluteTick (collectEvents tieExample_melody [] tieExample_options) = [480, 960, 0, 480] \<and>
   map absoluteTick (sortedEvents tieExample_melody [] tieExample_options) = [0, 480, 480, 960] \<and>
   isNoteOff (sortedEvents tieExample_melody [] tieExample_options ! 1) \<and>
   isNoteOn (sortedEvents tieExample_melody [] tieExample_options ! 2) \<and>
   isNoteOn (sortedEvents tieExample_melody [] tieExample_options ! 1)
     \<noteq> isNoteOff (sortedEvents tieExample_melody [] tieExample_options ! 1) \<and>
   \<not> (absoluteTick (sortedEvents tieExample_melody [] tieExample_options ! 1)
        = absoluteTick (sortedEvents tieExample_melody [] tieExample_options ! 2) \<and>
      isNoteOn (sortedEvents tieExample_melody [] tieExample_options ! 1) \<and>
      isNoteOff (sortedEvents tieExample_melody [] tieExample_options ! 2))"
proof -
  let ?es = "sortedEvents tieExample_melody [] tieExample_options"
  note inst = sortedEvents_off_before_on[of tieExample_melody "[]" tieExample_options]
  have mem: "?es ! 1 \<in> set ?es" by code_simp
  have idx: "(1::nat) < 2 \<and> 2 < length ?es" by code_simp
  have before: "map absoluteTick (collectEvents tieExample_melody [] tieExample_options)
                  = [480, 960, 0, 480]"
    by code_simp
  have after: "map absoluteTick ?es = [0, 480, 480, 960]" by code_simp
  have off1: "isNoteOff (?es ! 1)" by code_simp
  have on2: "isNoteOn (?es ! 2)" by code_simp
  from inst mem have kind: "isNoteOn (?es ! 1) \<noteq> isNoteOff (?es ! 1)" by blast
  from inst idx have ord:
    "\<not> (absoluteTick (?es ! 1) = absoluteTick (?es ! 2) \<and> isNoteOn (?es ! 1) \<and> isNoteOff (?es ! 2))"
    by blast
  from mem idx before after off1 on2 kind ord show ?thesis by blast
qed

section \<open>Quantizer\<close>

subsection \<open>Rounding to a double\<close>

lemma pow2_powr: "pow2 e = 2 powr (real_of_int e)"
proof (cases "0 \<le> e")
  case True
  then show ?thesis by (simp add: pow2_def powr_realpow[symmetric])
next
  case False
  then have "real_of_int e = - real (nat (- e))" by simp
  then have "2 powr (real_of_int e) = 1 / 2 powr (real (nat (- e)))"
    by (simp only: powr_minus_divide)
  with False show ?thesis by (simp add: pow2_def powr_realpow[symmetric])
qed

lemma pow2_pos: "0 < pow2 e"
  by (simp add: pow2_powr)

lemma pow2_add: "pow2 (a + b) = pow2 a * pow2 b"
  by (simp add: pow2_powr powr_add)

lemma pow2_Suc: "pow2 (e + 1) = 2 * pow2 e"
  by (simp add: pow2_powr powr_add)

lemma pow2_pred: "pow2 (e - 1) = pow2 e / 2"
  using pow2_Suc[of "e - 1"] by simp

lemma pow2_less_iff: "pow2 a < pow2 b \<longleftrightarrow> a < b"
  by (simp add: pow2_powr)

lemma binExp_bounds:
  "0 < x \<Longrightarrow> pow2 (binExp x) \<le> x \<and> x < 2 * pow2 (binExp x)"
proof (induction x rule: binExp.induct)
  case (1 x)
  show ?case
  proof (cases "2 \<le> x")
    case True
    with 1 have ih: "pow2 (binExp (x / 2)) \<le> x / 2 \<and> x / 2 < 2 * pow2 (binExp (x / 2))"
      by simp
    have e: "binExp x = binExp (x / 2) + 1"
      using True 1(3) by (subst binExp.simps) simp
    from ih show ?thesis unfolding e pow2_Suc by simp
  next
    case False
    show ?thesis
    proof (cases "x < 1")
      case True
      with False 1 have ih: "pow2 (binExp (x * 2)) \<le> x * 2 \<and> x * 2 < 2 * pow2 (binExp (x * 2))"
        by simp
      have e: "binExp x = binExp (x * 2) - 1"
        using True False 1(3) by (subst binExp.simps) simp
      from ih show ?thesis unfolding e pow2_pred by simp
    next
      case ge: False
      have e: "binExp x = 0"
        using ge False 1(3) by (subst binExp.simps) simp
      from ge False show ?thesis unfolding e by (simp add: pow2_def)
    qed
  qed
qed

lemma binExp_unique:
  assumes "pow2 e \<le> x" and "x < 2 * pow2 e"
  shows "binExp x = e"
proof -
  have pos: "0 < x" using assms(1) pow2_pos[of e] by linarith
  from binExp_bounds[OF pos] have b1: "pow2 (binExp x) \<le> x" and b2: "x < 2 * pow2 (binExp x)"
    by simp_all
  from b1 assms(2) have "pow2 (binExp x) < pow2 (e + 1)" by (simp add: pow2_Suc)
  then have u: "binExp x < e + 1" by (simp only: pow2_less_iff)
  from assms(1) b2 have "pow2 e < pow2 (binExp x + 1)" by (simp add: pow2_Suc)
  then have l: "e < binExp x + 1" by (simp only: pow2_less_iff)
  from u l show ?thesis by simp
qed

lemma roundEven_error: "\<bar>real_of_int (roundEven y) - y\<bar> \<le> 1 / 2"
  unfolding roundEven_def Let_def by (auto simp: abs_le_iff)

lemma roundEven_eq:
  assumes "\<bar>y - real_of_int m\<bar> < 1 / 2"
  shows "roundEven y = m"
proof -
  have "\<bar>real_of_int (roundEven y) - real_of_int m\<bar> < 1"
    using roundEven_error[of y] assms by linarith
  then have "\<bar>real_of_int (roundEven y - m)\<bar> < 1" by simp
  then have "\<bar>roundEven y - m\<bar> < 1" by linarith
  then show ?thesis by simp
qed




lemma toDouble_zero: "toDouble 0 = 0"
  by (simp add: toDouble_def)

lemma toDouble_eq:
  assumes "pow2 e \<le> \<bar>x\<bar>" and "\<bar>x\<bar> < 2 * pow2 e"
    and "\<bar>x / pow2 (e - 52) - real_of_int m\<bar> < 1 / 2"
  shows "toDouble x = real_of_int m * pow2 (e - 52)"
proof -
  have nz: "x \<noteq> 0" using assms(1) pow2_pos[of e] by auto
  have e: "binExp \<bar>x\<bar> = e" using assms(1,2) by (rule binExp_unique)
  have "roundEven (x / pow2 (e - 52)) = m" using assms(3) by (rule roundEven_eq)
  with nz e show ?thesis by (simp add: toDouble_def Let_def)
qed

lemma toDouble_error: "\<bar>toDouble x - x\<bar> \<le> \<bar>x\<bar> / 2 ^ 53"
proof (cases "x = 0")
  case True
  then show ?thesis by (simp add: toDouble_def)
next
  case False
  define e where "e = binExp \<bar>x\<bar>"
  define u where "u = pow2 (e - 52)"
  define m where "m = roundEven (x / u)"
  have upos: "0 < u" by (simp add: u_def pow2_pos)
  have td: "toDouble x = real_of_int m * u"
    using False by (simp add: toDouble_def Let_def e_def u_def m_def)
  have "0 < \<bar>x\<bar>" using False by simp
  from binExp_bounds[OF this] have lo: "pow2 e \<le> \<bar>x\<bar>" by (simp add: e_def)
  have "pow2 e = pow2 (e - 52) * pow2 52" using pow2_add[of "e - 52" 52] by simp
  then have ue: "u = pow2 e / 2 ^ 52" by (simp add: u_def pow2_def)
  have "\<bar>real_of_int m - x / u\<bar> \<le> 1 / 2" unfolding m_def by (rule roundEven_error)
  then have "\<bar>real_of_int m - x / u\<bar> * u \<le> 1 / 2 * u"
    using upos by (simp only: mult_le_cancel_right_pos)
  moreover have "\<bar>real_of_int m - x / u\<bar> * u = \<bar>real_of_int m * u - x\<bar>"
  proof -
    have "\<bar>real_of_int m - x / u\<bar> * u = \<bar>(real_of_int m - x / u) * u\<bar>"
      using upos by (simp add: abs_mult)
    also have "(real_of_int m - x / u) * u = real_of_int m * u - x"
      using upos by (simp add: algebra_simps)
    finally show ?thesis .
  qed
  ultimately have "\<bar>real_of_int m * u - x\<bar> \<le> u / 2" by simp
  also have "u / 2 = pow2 e / 2 ^ 53" by (simp add: ue)
  also have "\<dots> \<le> \<bar>x\<bar> / 2 ^ 53" using lo by (simp add: divide_right_mono)
  finally show ?thesis by (simp only: td)
qed

lemma toDouble_pos:
  assumes "0 < x"
  shows "0 < toDouble x"
proof -
  have "\<bar>toDouble x - x\<bar> \<le> x / 2 ^ 53" using toDouble_error[of x] assms by simp
  moreover have "x / 2 ^ 53 < x" using assms by simp
  ultimately show ?thesis by linarith
qed

lemma toDouble_idem: "toDouble (toDouble x) = toDouble x"
proof (cases "x = 0")
  case True
  then show ?thesis by (simp add: toDouble_def)
next
  case False
  define e where "e = binExp \<bar>x\<bar>"
  define u where "u = pow2 (e - 52)"
  define m where "m = roundEven (x / u)"
  have upos: "0 < u" by (simp add: u_def pow2_pos)
  have td: "toDouble x = real_of_int m * u"
    using False by (simp add: toDouble_def Let_def e_def u_def m_def)
  have "0 < \<bar>x\<bar>" using False by simp
  from binExp_bounds[OF this] have lo: "pow2 e \<le> \<bar>x\<bar>" and hi: "\<bar>x\<bar> < 2 * pow2 e"
    by (simp_all add: e_def)
  have "pow2 e = pow2 (e - 52) * pow2 52" using pow2_add[of "e - 52" 52] by simp
  then have eu: "pow2 e = 2 ^ 52 * u" by (simp add: u_def pow2_def)
  have xu: "\<bar>x / u\<bar> = \<bar>x\<bar> / u" using upos by simp
  have l1: "2 ^ 52 \<le> \<bar>x / u\<bar>" unfolding xu using lo eu upos by (simp add: pos_le_divide_eq)
  have h1: "\<bar>x / u\<bar> < 2 ^ 53" unfolding xu using hi eu upos by (simp add: pos_divide_less_eq)
  have err: "\<bar>real_of_int m - x / u\<bar> \<le> 1 / 2" unfolding m_def by (rule roundEven_error)
  have "2 ^ 52 - 1 < \<bar>real_of_int m\<bar>" using l1 err by linarith
  then have "real_of_int (2 ^ 52 - 1) < real_of_int \<bar>m\<bar>" by simp
  then have "(2 ^ 52 - 1 :: int) < \<bar>m\<bar>" by (simp only: of_int_less_iff)
  then have ml: "2 ^ 52 \<le> \<bar>m\<bar>" by simp
  have "\<bar>real_of_int m\<bar> < 2 ^ 53 + 1" using h1 err by linarith
  then have "real_of_int \<bar>m\<bar> < real_of_int (2 ^ 53 + 1)" by simp
  then have "\<bar>m\<bar> < (2 ^ 53 + 1 :: int)" by (simp only: of_int_less_iff)
  then have mh: "\<bar>m\<bar> \<le> 2 ^ 53" by simp
  have absy: "\<bar>real_of_int m * u\<bar> = real_of_int \<bar>m\<bar> * u" using upos by (simp add: abs_mult)
  show ?thesis
  proof (cases "\<bar>m\<bar> = 2 ^ 53")
    case True
    have m2: "real_of_int m = 2 * real_of_int (m div 2)"
    proof -
      have "even m" using True by (metis even_abs_add_iff even_add even_numeral even_power zero_less_numeral)
      then show ?thesis by (metis dvd_mult_div_cancel of_int_mult of_int_numeral)
    qed
    have a1: "pow2 (e + 1) \<le> \<bar>real_of_int m * u\<bar>"
      unfolding absy pow2_Suc eu True by simp
    have a2: "\<bar>real_of_int m * u\<bar> < 2 * pow2 (e + 1)"
      unfolding absy pow2_Suc eu True using upos by simp
    have u2: "pow2 (e + 1 - 52) = 2 * u" using pow2_Suc[of "e - 52"] by (simp add: u_def)
    have a3: "\<bar>real_of_int m * u / pow2 (e + 1 - 52) - real_of_int (m div 2)\<bar> < 1 / 2"
      unfolding u2 using upos m2 by simp
    from toDouble_eq[OF a1 a2 a3] show ?thesis unfolding td u2 using m2 by simp
  next
    case False
    with mh have mlt: "\<bar>m\<bar> < 2 ^ 53" by simp
    have a1: "pow2 e \<le> \<bar>real_of_int m * u\<bar>"
      unfolding absy eu using ml upos by (simp add: mult_right_mono)
    have "real_of_int \<bar>m\<bar> < real_of_int (2 ^ 53)" using mlt by (simp only: of_int_less_iff)
    then have "real_of_int \<bar>m\<bar> < 2 ^ 53" by simp
    then have "real_of_int \<bar>m\<bar> * u < 2 ^ 53 * u" using upos by (simp only: mult_less_cancel_right_pos)
    then have a2: "\<bar>real_of_int m * u\<bar> < 2 * pow2 e"
      unfolding absy eu by simp
    have a3: "\<bar>real_of_int m * u / pow2 (e - 52) - real_of_int m\<bar> < 1 / 2"
      using upos by (simp add: u_def[symmetric])
    from toDouble_eq[OF a1 a2 a3] show ?thesis unfolding td by (simp add: u_def)
  qed
qed


lemma round_toDouble_multiple:
  fixes k :: int
  assumes g: "0 < g" and k: "\<bar>k\<bar> \<le> 2 ^ 50"
  shows "round (toDouble (toDouble (real_of_int k * g) / g)) = k"
proof -
  define r where "r = toDouble (real_of_int k * g)"
  define x where "x = r / g"
  define y where "y = toDouble x"
  define a where "a = \<bar>real_of_int k\<bar>"
  have a50: "a \<le> 2 ^ 50"
  proof -
    have "real_of_int \<bar>k\<bar> \<le> real_of_int (2 ^ 50)" using k by (simp only: of_int_le_iff)
    then show ?thesis by (simp add: a_def)
  qed
  have a0: "0 \<le> a" by (simp add: a_def)
  have "\<bar>r - real_of_int k * g\<bar> \<le> \<bar>real_of_int k * g\<bar> / 2 ^ 53"
    unfolding r_def by (rule toDouble_error)
  then have e1: "\<bar>r - real_of_int k * g\<bar> \<le> a * g / 2 ^ 53"
    using g by (simp add: abs_mult a_def)
  have "x - real_of_int k = (r - real_of_int k * g) / g"
    using g by (simp add: x_def field_simps)
  then have "\<bar>x - real_of_int k\<bar> = \<bar>r - real_of_int k * g\<bar> / g"
    using g by simp
  also have "\<dots> \<le> (a * g / 2 ^ 53) / g"
    using e1 g by (simp only: divide_right_mono less_imp_le)
  also have "\<dots> = a / 2 ^ 53" using g by simp
  finally have e2: "\<bar>x - real_of_int k\<bar> \<le> a / 2 ^ 53" .
  have "\<bar>x\<bar> \<le> \<bar>real_of_int k\<bar> + \<bar>x - real_of_int k\<bar>" by linarith
  then have xb: "\<bar>x\<bar> \<le> a + a / 2 ^ 53" using e2 by (simp add: a_def)
  have "\<bar>y - x\<bar> \<le> \<bar>x\<bar> / 2 ^ 53" unfolding y_def by (rule toDouble_error)
  also have "\<dots> \<le> (a + a / 2 ^ 53) / 2 ^ 53" using xb by (simp add: divide_right_mono)
  finally have e3: "\<bar>y - x\<bar> \<le> (a + a / 2 ^ 53) / 2 ^ 53" .
  have "\<bar>y - real_of_int k\<bar> \<le> \<bar>y - x\<bar> + \<bar>x - real_of_int k\<bar>" by linarith
  also have "\<dots> \<le> (a + a / 2 ^ 53) / 2 ^ 53 + a / 2 ^ 53" using e2 e3 by linarith
  also have "\<dots> \<le> (2 ^ 50 + 2 ^ 50 / 2 ^ 53) / 2 ^ 53 + 2 ^ 50 / 2 ^ 53"
    using a50 by (simp add: field_simps)
  also have "\<dots> < 1 / 2" by simp
  finally have close: "\<bar>y - real_of_int k\<bar> < 1 / 2" .
  have "round y = k"
    by (rule round_unique) (use close in linarith)+
  then show ?thesis by (simp only: y_def x_def r_def)
qed

lemma round_toDouble_bound:
  assumes "\<bar>x\<bar> \<le> 2 ^ 50"
  shows "\<bar>round (toDouble x)\<bar> \<le> 2 ^ 50"
proof -
  have "\<bar>toDouble x - x\<bar> \<le> \<bar>x\<bar> / 2 ^ 53" by (rule toDouble_error)
  also have "\<dots> \<le> 2 ^ 50 / 2 ^ 53" using assms by (simp add: divide_right_mono)
  finally have "\<bar>toDouble x - x\<bar> \<le> 1 / 8" by simp
  with assms have b: "\<bar>toDouble x\<bar> \<le> 2 ^ 50 + 1 / 8" by linarith
  have "real_of_int (round (toDouble x)) \<le> toDouble x + 1 / 2"
    by (rule of_int_round_le)
  moreover have "toDouble x - 1 / 2 \<le> real_of_int (round (toDouble x))"
    by (rule of_int_round_ge)
  ultimately have "\<bar>real_of_int (round (toDouble x))\<bar> < 2 ^ 50 + 1" using b by linarith
  then have "real_of_int \<bar>round (toDouble x)\<bar> < real_of_int (2 ^ 50 + 1)" by simp
  then have "\<bar>round (toDouble x)\<bar> < 2 ^ 50 + 1" by (simp only: of_int_less_iff)
  then show ?thesis by simp
qed


subsection \<open>A second pass over a snapped value\<close>

lemma gridFraction_pos: "0 < gridFraction q"
proof -
  have "map_of quantizeMap q = None \<or> map_of quantizeMap q = Some 1
        \<or> map_of quantizeMap q = Some 0.5 \<or> map_of quantizeMap q = Some 0.25
        \<or> map_of quantizeMap q = Some 0.125"
    by (simp add: quantizeMap_def)
  then show ?thesis
    by (auto simp: gridFraction_def orElse_def)
qed

lemma gridSizeOf_pos: "0 < tempo' \<Longrightarrow> 0 < gridSizeOf tempo' q"
  unfolding gridSizeOf_def Let_def
  by (intro toDouble_pos mult_pos_pos gridFraction_pos) simp

lemma gridSizeOf_double: "toDouble (gridSizeOf tempo' q) = gridSizeOf tempo' q"
  unfolding gridSizeOf_def Let_def by (rule toDouble_idem)

lemma toDouble_one: "toDouble 1 = 1"
  using toDouble_eq[of 0 1 "2 ^ 52"] by (simp add: pow2_def)

lemma snap_idem:
  assumes g: "0 < g" and x: "\<bar>x\<bar> \<le> 2 ^ 50 * g"
  shows "toDouble (real_of_int (round (toDouble
           (toDouble (real_of_int (round (toDouble (x / g))) * g) / g))) * g)
         = toDouble (real_of_int (round (toDouble (x / g))) * g)"
proof -
  have "\<bar>x / g\<bar> = \<bar>x\<bar> / g" using g by simp
  also have "\<dots> \<le> 2 ^ 50" using x g by (simp add: pos_divide_le_eq)
  finally have "\<bar>round (toDouble (x / g))\<bar> \<le> 2 ^ 50" by (rule round_toDouble_bound)
  with g have "round (toDouble (toDouble (real_of_int (round (toDouble (x / g))) * g) / g))
                 = round (toDouble (x / g))"
    by (rule round_toDouble_multiple)
  then show ?thesis by (simp only:)
qed

lemma quantizeNote_idem:
  assumes g: "0 < g" and dg: "toDouble g = g" and w: "withinGrid g n"
  shows "quantizeNote g (quantizeNote g n) = quantizeNote g n"
proof -
  have tb: "\<bar>time n\<bar> \<le> 2 ^ 50 * g" using w by (simp add: withinGrid_def)
  have t1: "time (quantizeNote g n) = toDouble (real_of_int (round (toDouble (time n / g))) * g)"
    by (simp add: quantizeNote_def)
  have t: "toDouble (real_of_int (round (toDouble (time (quantizeNote g n) / g))) * g)
             = time (quantizeNote g n)"
    unfolding t1 using g tb by (rule snap_idem)
  have d: "(case duration (quantizeNote g n) of
              None \<Rightarrow> None
            | Some d \<Rightarrow> if d = 0 then None
                else Some (max g (toDouble (real_of_int (round (toDouble (d / g))) * g))))
           = duration (quantizeNote g n)"
  proof (cases "duration n")
    case None
    then show ?thesis by (simp add: quantizeNote_def)
  next
    case (Some d0)
    show ?thesis
    proof (cases "d0 = 0")
      case True
      with Some show ?thesis by (simp add: quantizeNote_def)
    next
      case False
      define v where "v = toDouble (real_of_int (round (toDouble (d0 / g))) * g)"
      have db: "\<bar>d0\<bar> \<le> 2 ^ 50 * g" using w Some by (simp add: withinGrid_def)
      have dq: "duration (quantizeNote g n) = Some (max g v)"
        using Some False by (simp add: quantizeNote_def v_def)
      have nz: "max g v \<noteq> 0" using g by (simp add: max_def)
      have again: "max g (toDouble (real_of_int (round (toDouble (max g v / g))) * g)) = max g v"
      proof (cases "v \<le> g")
        case True
        then have m: "max g v = g" by (simp add: max_def)
        have "toDouble (g / g) = 1" using g toDouble_one by simp
        then show ?thesis unfolding m using dg by simp
      next
        case False
        then have m: "max g v = v" by (simp add: max_def)
        have "toDouble (real_of_int (round (toDouble (v / g))) * g) = v"
          unfolding v_def using g db by (rule snap_idem)
        then show ?thesis by (simp only: m)
      qed
      show ?thesis unfolding dq using nz again by simp
    qed
  qed
  show ?thesis
    unfolding quantizeNote_def[of g "quantizeNote g n"]
    using t d by simp
qed

subsection \<open>Two melodies that a second pass changes\<close>

lemma toDouble_b: "toDouble (60 / 100) = 5404319552844595 / 9007199254740992"
  using toDouble_eq[of "-1" "60 / 100" 5404319552844595] by (simp add: pow2_def)

lemma gridSize_100_16: "gridSizeOf 100 ''1/16'' = 5404319552844595 / 36028797018963968"
proof -
  have f: "gridFraction ''1/16'' = 1 / 4"
    by (simp add: gridFraction_def quantizeMap_def orElse_def)
  have "toDouble (5404319552844595 / 9007199254740992 * (1 / 4))
          = 5404319552844595 / 36028797018963968"
    using toDouble_eq[of "-3" "5404319552844595 / 9007199254740992 * (1 / 4)" 5404319552844595]
    by (simp add: pow2_def)
  then show ?thesis unfolding gridSizeOf_def Let_def toDouble_b f .
qed



lemma time_quantizeNote:
  "time (quantizeNote g n) = toDouble (real_of_int (round (toDouble (time n / g))) * g)"
  by (simp add: quantizeNote_def)

lemma far_once:
  "toDouble (real_of_int (round (toDouble (2 ^ 49 / (5404319552844595 / 36028797018963968)))) *
             (5404319552844595 / 36028797018963968)) = 4503599627370497 / 8"
proof -
  have a: "toDouble (2 ^ 49 / (5404319552844595 / 36028797018963968)) = 7505999378950827 / 2"
    using toDouble_eq[of 51 "2 ^ 49 / (5404319552844595 / 36028797018963968)" 7505999378950827]
    by (simp add: pow2_def)
  have b: "round (7505999378950827 / 2 :: real) = 3752999689475414"
    by (rule round_unique) simp_all
  have c: "toDouble (real_of_int 3752999689475414 * (5404319552844595 / 36028797018963968))
             = 4503599627370497 / 8"
    using toDouble_eq[of 49 "real_of_int 3752999689475414 * (5404319552844595 / 36028797018963968)"
                         4503599627370497]
    by (simp add: pow2_def)
  show ?thesis unfolding a b c ..
qed

lemma far_twice:
  "toDouble (real_of_int (round (toDouble (4503599627370497 / 8 / (5404319552844595 / 36028797018963968)))) *
             (5404319552844595 / 36028797018963968)) = 2251799813685249 / 4"
proof -
  have a: "toDouble (4503599627370497 / 8 / (5404319552844595 / 36028797018963968))
             = 7505999378950829 / 2"
    using toDouble_eq[of 51 "4503599627370497 / 8 / (5404319552844595 / 36028797018963968)"
                         7505999378950829]
    by (simp add: pow2_def)
  have b: "round (7505999378950829 / 2 :: real) = 3752999689475415"
    by (rule round_unique) simp_all
  have c: "toDouble (real_of_int 3752999689475415 * (5404319552844595 / 36028797018963968))
             = 2251799813685249 / 4"
    using toDouble_eq[of 49 "real_of_int 3752999689475415 * (5404319552844595 / 36028797018963968)"
                         4503599627370498]
    by (simp add: pow2_def)
  show ?thesis unfolding a b c ..
qed

lemma map_time_single:
  "map time (map (quantizeNote g) [n])
     = [toDouble (real_of_int (round (toDouble (time n / g))) * g)]"
  by (simp add: time_quantizeNote)

lemma gridSize_neg100_16: "gridSizeOf (- 100) ''1/16'' = - (5404319552844595 / 36028797018963968)"
proof -
  have f: "gridFraction ''1/16'' = 1 / 4"
    by (simp add: gridFraction_def quantizeMap_def orElse_def)
  have b: "toDouble (60 / - 100) = - (5404319552844595 / 9007199254740992)"
    using toDouble_eq[of "-1" "60 / - 100" "- 5404319552844595"] by (simp add: pow2_def)
  have "toDouble (- (5404319552844595 / 9007199254740992) * (1 / 4))
          = - (5404319552844595 / 36028797018963968)"
    using toDouble_eq[of "-3" "- (5404319552844595 / 9007199254740992) * (1 / 4)"
                         "- 5404319552844595"]
    by (simp add: pow2_def)
  then show ?thesis unfolding gridSizeOf_def Let_def b f .
qed

lemma short_once:
  "max (- (5404319552844595 / 36028797018963968))
       (toDouble (real_of_int (round (toDouble
          (1 / 100 / - (5404319552844595 / 36028797018963968)))) *
          - (5404319552844595 / 36028797018963968))) = 0"
proof -
  have a: "toDouble (1 / 100 / - (5404319552844595 / 36028797018963968))
             = - (4803839602528529 / 72057594037927936)"
    using toDouble_eq[of "-4" "1 / 100 / - (5404319552844595 / 36028797018963968)"
                         "- 4803839602528529"]
    by (simp add: pow2_def)
  have b: "round (- (4803839602528529 / 72057594037927936) :: real) = 0"
    by (rule round_unique) simp_all
  show ?thesis unfolding a b by (simp add: toDouble_zero)
qed

lemma map_duration_single:
  "map duration (map (quantizeNote g) [n])
     = [case duration n of None \<Rightarrow> None
        | Some d \<Rightarrow> if d = 0 then None
            else Some (max g (toDouble (real_of_int (round (toDouble (d / g))) * g)))]"
  by (simp add: quantizeNote_def)

text \<open>
  Claim C7, as stated for every note list and every tempo, fails on \<open>quantizeNotes\<close>.
  At tempo 100 and grid value \<open>1/16\<close> the grid size is the double nearest to 0.15. A
  note at \<open>2^49\<close> seconds is snapped to 562949953421312.125 by the first pass and moved
  to 562949953421312.25 by the second: the quotient of the snapped time by the grid
  size rounds to the next integer. And at the tempo -100 a note of 10 ms gets the
  duration 0 from the first pass, which the second pass, finding it falsy, removes.
\<close>

theorem quantizeNotes_second_pass_counterexample:
  "map time (quantizeNotes farNote 100 ''1/16'') = [4503599627370497 / 8] \<and>
   map time (quantizeNotes (quantizeNotes farNote 100 ''1/16'') 100 ''1/16'')
     = [2251799813685249 / 4] \<and>
   quantizeNotes (quantizeNotes farNote 100 ''1/16'') 100 ''1/16''
     \<noteq> quantizeNotes farNote 100 ''1/16'' \<and>
   map duration (quantizeNotes shortNote (- 100) ''1/16'') = [Some 0] \<and>
   map duration (quantizeNotes (quantizeNotes shortNote (- 100) ''1/16'') (- 100) ''1/16'')
     = [None] \<and>
   quantizeNotes (quantizeNotes shortNote (- 100) ''1/16'') (- 100) ''1/16''
     \<noteq> quantizeNotes shortNote (- 100) ''1/16''"
proof -
  have q: "quantizeNotes ns 100 ''1/16''
             = map (quantizeNote (5404319552844595 / 36028797018963968)) ns" for ns
    unfolding quantizeNotes_def gridSize_100_16 by simp
  have t0: "time \<lparr>pitch = ''a4'', time = 2 ^ 49, duration = Some 1, velocity = None\<rparr> = 2 ^ 49"
    by simp
  have once: "map time (quantizeNotes farNote 100 ''1/16'') = [4503599627370497 / 8]"
    unfolding q farNote_def map_time_single t0 far_once ..
  obtain n where n: "quantizeNotes farNote 100 ''1/16'' = [n]"
    unfolding q farNote_def by simp
  have tn: "time n = 4503599627370497 / 8" using once unfolding n by simp
  have twice: "map time (quantizeNotes (quantizeNotes farNote 100 ''1/16'') 100 ''1/16'')
                 = [2251799813685249 / 4]"
    unfolding n unfolding q map_time_single tn far_twice ..
  have "map time (quantizeNotes (quantizeNotes farNote 100 ''1/16'') 100 ''1/16'')
          \<noteq> map time (quantizeNotes farNote 100 ''1/16'')"
    unfolding once twice by simp
  then have far: "quantizeNotes (quantizeNotes farNote 100 ''1/16'') 100 ''1/16''
               \<noteq> quantizeNotes farNote 100 ''1/16''"
    by auto
  have r: "quantizeNotes ns (- 100) ''1/16''
             = map (quantizeNote (- (5404319552844595 / 36028797018963968))) ns" for ns
    unfolding quantizeNotes_def gridSize_neg100_16 by simp
  have d0: "duration \<lparr>pitch = ''a4'', time = 0, duration = Some (1 / 100), velocity = None\<rparr>
              = Some (1 / 100)"
    by simp
  have donce: "map duration (quantizeNotes shortNote (- 100) ''1/16'') = [Some 0]"
    unfolding r shortNote_def map_duration_single d0 using short_once by simp
  obtain m where m: "quantizeNotes shortNote (- 100) ''1/16'' = [m]"
    unfolding r shortNote_def by simp
  have dm: "duration m = Some 0" using donce unfolding m by simp
  have dtwice: "map duration (quantizeNotes (quantizeNotes shortNote (- 100) ''1/16'') (- 100) ''1/16'')
                 = [None]"
    unfolding m unfolding r map_duration_single dm by simp
  have "map duration (quantizeNotes (quantizeNotes shortNote (- 100) ''1/16'') (- 100) ''1/16'')
          \<noteq> map duration (quantizeNotes shortNote (- 100) ''1/16'')"
    unfolding donce dtwice by simp
  then have short: "quantizeNotes (quantizeNotes shortNote (- 100) ''1/16'') (- 100) ''1/16''
               \<noteq> quantizeNotes shortNote (- 100) ''1/16''"
    by auto
  from once twice far donce dtwice short show ?thesis by blast
qed

text \<open>
  Claim C7, amended. Quantization is idempotent on the melodies within reach of the
  grid. With the grid value \<open>none\<close> the quantizer returns every melody as it is. With a
  grid value among \<open>1/4\<close>, \<open>1/8\<close>, \<open>1/16\<close> and \<open>1/32\<close>, a tempo of at least \<open>2^-960\<close>
  beats per minute (a positive tempo for which \<open>60 / tempo\<close> and \<open>2^50\<close> grid units stay
  in the range of the doubles) and a note list in which no onset time and no duration
  exceeds \<open>2^50\<close> grid units in magnitude, quantizing the once-quantized melody again,
  with the same tempo and grid value, returns it unchanged: every field of every note
  is the same.
\<close>

theorem quantizeNotes_idempotent:
  assumes "q \<in> set QUANTIZE_VALUES"
    and "q \<noteq> ''none'' \<longrightarrow>
           1 / 2 ^ 960 \<le> tempo' \<and> (\<forall>n \<in> set ns. withinGrid (gridSizeOf tempo' q) n)"
  shows "quantizeNotes (quantizeNotes ns tempo' q) tempo' q = quantizeNotes ns tempo' q"
proof (cases "q = ''none''")
  case True
  then show ?thesis by (simp add: quantizeNotes_def)
next
  case False
  with assms(2) have low: "1 / 2 ^ 960 \<le> tempo'"
    and within: "\<forall>n \<in> set ns. withinGrid (gridSizeOf tempo' q) n"
    by simp_all
  have "(0::real) < 1 / 2 ^ 960" by simp
  with low have pos: "0 < tempo'" by linarith
  have g: "0 < gridSizeOf tempo' q" using pos by (rule gridSizeOf_pos)
  have "quantizeNote (gridSizeOf tempo' q) (quantizeNote (gridSizeOf tempo' q) n)
          = quantizeNote (gridSizeOf tempo' q) n" if "n \<in> set ns" for n
    using g gridSizeOf_double within that by (intro quantizeNote_idem) simp_all
  then show ?thesis using False by (simp add: quantizeNotes_def)
qed

theorem quantizeNotes_idempotent_witness:
  "''1/16'' \<in> set QUANTIZE_VALUES \<and> ''1/16'' \<noteq> ''none'' \<and> (1 / 2 ^ 960 :: real) \<le> 120 \<and>
   gridSizeOf 120 ''1/16'' = 1 / 8 \<and>
   list_all (withinGrid (gridSizeOf 120 ''1/16'')) quantizeExample \<and>
   quantizeNotes (quantizeNotes quantizeExample 120 ''1/16'') 120 ''1/16''
     = quantizeNotes quantizeExample 120 ''1/16'' \<and>
   quantizeNotes quantizeExample 120 ''1/16'' =
     [\<lparr>pitch = ''a4'', time = 1/4, duration = Some (1/4), velocity = None\<rparr>,
      \<lparr>pitch = ''c5'', time = 3/4, duration = None, velocity = Some (1/2)\<rparr>,
      \<lparr>pitch = ''e5'', time = 1, duration = Some (1/8), velocity = None\<rparr>]"
proof -
  have h1: "''1/16'' \<in> set QUANTIZE_VALUES" by (simp add: QUANTIZE_VALUES_def)
  have h2: "(1 / 2 ^ 960 :: real) \<le> 120"
  proof -
    have "(1 / 2 ^ 960 :: real) \<le> 1" by simp
    then show ?thesis by linarith
  qed
  have g: "gridSizeOf 120 ''1/16'' = 1 / 8" by code_simp
  have h3: "list_all (withinGrid (gridSizeOf 120 ''1/16'')) quantizeExample"
    unfolding g by (simp add: quantizeExample_def withinGrid_def)
  then have h3': "\<forall>n \<in> set quantizeExample. withinGrid (gridSizeOf 120 ''1/16'') n"
    by (simp only: list_all_iff)
  have v: "quantizeNotes quantizeExample 120 ''1/16'' =
     [\<lparr>pitch = ''a4'', time = 1/4, duration = Some (1/4), velocity = None\<rparr>,
      \<lparr>pitch = ''c5'', time = 3/4, duration = None, velocity = Some (1/2)\<rparr>,
      \<lparr>pitch = ''e5'', time = 1, duration = Some (1/8), velocity = None\<rparr>]"
    by code_simp
  from h2 h3' have h: "''1/16'' \<noteq> ''none'' \<longrightarrow>
      1 / 2 ^ 960 \<le> (120::real) \<and> (\<forall>n \<in> set quantizeExample. withinGrid (gridSizeOf 120 ''1/16'') n)"
    by blast
  have h0: "''1/16'' \<noteq> ''none''" by simp
  from quantizeNotes_idempotent[OF h1 h] h0 h1 h2 g h3 v show ?thesis
    by (simp only: simp_thms)
qed

section \<open>Pattern notation generator\<close>

lemma notePattern_nonempty: "notePattern p \<noteq> []"
  by (simp add: notePattern_def)

lemma restPattern_nonempty: "restPattern \<noteq> []"
  by (simp add: restPattern_def)

text \<open>
  Claim C9. For an empty melody the melody output is the rest-only pattern
  \<open>note("~").sound("piano")\<close>, whatever the chords; for an empty chord list the chord
  output is the same rest-only pattern, whatever the melody; for both empty the combined
  output is the comment header followed by the stack of the two rest-only patterns and
  the cycles-per-minute call. None of the three outputs is ever the empty string, and
  the generator has no failing branch.
\<close>

theorem generateStrudelCode_empty_inputs:
  "melodyCode (generateStrudelCode [] chords tempo' ts) = restPattern \<and>
   chordsCode (generateStrudelCode melody [] tempo' ts) = restPattern \<and>
   combinedCode (generateStrudelCode [] [] tempo' ts) =
     ''// Tempo: '' @ showInt tempo' @ '' BPM, Time Signature: '' @ ts @ newline
     @ ''// Melody: 0 notes, Chords: 0 chords'' @ newline
     @ ''stack('' @ newline
     @ ''  '' @ restPattern @ '','' @ newline
     @ ''  '' @ restPattern @ newline
     @ '').cpm('' @ showInt (round (real_of_int tempo' / 4)) @ '')'' \<and>
   melodyCode (generateStrudelCode melody chords tempo' ts) \<noteq> [] \<and>
   chordsCode (generateStrudelCode melody chords tempo' ts) \<noteq> [] \<and>
   combinedCode (generateStrudelCode melody chords tempo' ts) \<noteq> [] \<and>
   restPattern \<noteq> []"
proof -
  have m: "melodyCode (generateStrudelCode [] chords tempo' ts) = restPattern"
    by (simp add: generateStrudelCode_def Let_def)
  have c: "chordsCode (generateStrudelCode melody [] tempo' ts) = restPattern"
    by (simp add: generateStrudelCode_def Let_def)
  have z: "showNat 0 = ''0''"
    by code_simp
  have b: "combinedCode (generateStrudelCode [] [] tempo' ts) =
     ''// Tempo: '' @ showInt tempo' @ '' BPM, Time Signature: '' @ ts @ newline
     @ ''// Melody: 0 notes, Chords: 0 chords'' @ newline
     @ ''stack('' @ newline
     @ ''  '' @ restPattern @ '','' @ newline
     @ ''  '' @ restPattern @ newline
     @ '').cpm('' @ showInt (round (real_of_int tempo' / 4)) @ '')''"
    unfolding generateStrudelCode_def Let_def using z by simp
  have m': "melodyCode (generateStrudelCode melody chords tempo' ts) \<noteq> []"
    by (simp add: generateStrudelCode_def Let_def notePattern_nonempty restPattern_nonempty)
  have c': "chordsCode (generateStrudelCode melody chords tempo' ts) \<noteq> []"
    by (simp add: generateStrudelCode_def Let_def notePattern_nonempty restPattern_nonempty)
  have b': "combinedCode (generateStrudelCode melody chords tempo' ts) \<noteq> []"
    by (simp add: generateStrudelCode_def Let_def)
  from m c b m' c' b' restPattern_nonempty show ?thesis by blast
qed

section \<open>Key estimator\<close>

lemma upt_12: "[0..<12] = [0, 1, 2, 3, 4, 5, 6, 7, 8, 9, 10, 11::nat]"
  by (simp add: upt_rec)

lemma normalize_zeros: "normalize (replicate 12 0) = replicate 12 0"
proof -
  have "foldl (+) (0::real) (replicate n 0) = 0" for n
    by (induction n) simp_all
  then show ?thesis by (simp add: normalize_def)
qed

lemma dot12_zeros: "dot12 (replicate 12 0) ys = 0"
  by (simp add: dot12_def upt_12)

lemma keyStep_zeros_first:
  "keyStep (replicate 12 0) (''C'', None) 0 = (''C'', Some 0)"
  by (simp add: keyStep_def Let_def dot12_zeros exceeds_def keyNames_def)

lemma keyStep_zeros_later:
  "keyStep (replicate 12 0) (''C'', Some 0) shift = (''C'', Some 0)"
  by (simp add: keyStep_def Let_def dot12_zeros exceeds_def)

lemma rotate_zeros: "i \<le> 12 \<Longrightarrow> drop i (replicate 12 (0::real)) @ take i (replicate 12 0) = replicate 12 0"
  by (simp add: replicate_add[symmetric])

lemma keyLabel_0: "keyLabel 0 = ''C''"
  by code_simp

lemma keyStepBatch_zeros_first:
  "keyStepBatch (replicate 12 0) (''C'', None) 0 = (''C'', Some 0)"
  using rotate_zeros[of 0]
  by (simp add: keyStepBatch_def Let_def dot12_zeros exceeds_def keyLabel_0)

lemma keyStepBatch_zeros_later:
  "i \<le> 12 \<Longrightarrow> keyStepBatch (replicate 12 0) (''C'', Some 0) i = (''C'', Some 0)"
  using rotate_zeros[of i]
  by (simp add: keyStepBatch_def Let_def dot12_zeros exceeds_def)

text \<open>
  Claim C5. On the all-zero pitch-class histogram the key estimator returns the fixed
  label \<open>C\<close>: the first candidate, C major, scores 0 and takes the lead from the initial
  \<open>-Infinity\<close>, and no later candidate scores strictly more. The same holds for the
  batch page's estimator, on all-zero chroma counts and so on a melody without notes.
  Being functions of their argument, both return the same label on every call.
\<close>

theorem detectKey_all_zero_is_C:
  "detectKey (replicate 12 0) = ''C'' \<and>
   keyOfChroma (replicate 12 0) = ''C'' \<and>
   detectKeyBatch [] = ''C''"
proof -
  have a: "detectKey (replicate 12 0) = ''C''"
    by (simp add: detectKey_def normalize_zeros upt_12 keyStep_zeros_first keyStep_zeros_later)
  have b: "keyOfChroma (replicate 12 0) = ''C''"
    by (simp add: keyOfChroma_def upt_12 keyStepBatch_zeros_first keyStepBatch_zeros_later)
  have c: "detectKeyBatch [] = ''C''"
    using b by (simp add: detectKeyBatch_def chromaOf_def)
  from a b c show ?thesis by blast
qed

section \<open>Tempo estimator\<close>

subsection \<open>Periodicity scoring\<close>

lemma foldl_invariant:
  assumes "P s" and "\<And>s x. P s \<Longrightarrow> x \<in> set xs \<Longrightarrow> P (f s x)"
  shows "P (foldl f s xs)"
  using assms by (induction xs arbitrary: s) auto

lemma foldl_add_zero:
  fixes a :: real
  assumes "\<And>j. j \<in> set js \<Longrightarrow> g j = 0"
  shows "foldl (\<lambda>e j. e + g j) a js = a"
  using assms by (induction js arbitrary: a) auto

lemma tempoStep_range:
  assumes "60 \<le> fst best \<and> fst best \<le> 200" and "bpm \<in> set [60..<201]"
  shows "60 \<le> fst (tempoStep f os best bpm) \<and> fst (tempoStep f os best bpm) \<le> 200"
  using assms by (auto simp: tempoStep_def Let_def)

lemma detectTempo_range: "60 \<le> detectTempo samples sr \<and> detectTempo samples sr \<le> 200"
  unfolding detectTempo_def Let_def
  by (rule foldl_invariant[where P = "\<lambda>b. 60 \<le> fst b \<and> fst b \<le> 200"])
     (simp_all add: tempoStep_range del: upt_Suc)

lemma frameStarts_bound: "x \<in> set (frameStarts hop i limit) \<Longrightarrow> int x < limit"
proof (induction hop i limit rule: frameStarts.induct)
  case (1 hop i limit)
  then show ?case
    by (subst (asm) frameStarts.simps) (auto split: if_splits)
qed

lemma frameEnergy_silent:
  assumes "i + frameSize \<le> n"
  shows "frameEnergy (replicate n 0) frameSize i = 0"
proof -
  have "foldl (\<lambda>energy j. energy + replicate n (0::real) ! (i + j) * replicate n 0 ! (i + j)) 0
          [0..<frameSize] = 0"
    by (rule foldl_add_zero) (use assms in auto)
  then show ?thesis by (simp add: frameEnergy_def)
qed

lemma onsetStrength_silent:
  assumes "\<forall>x \<in> set energies. x = 0"
  shows "\<forall>x \<in> set (onsetStrengthOf energies). x = 0"
proof -
  have "energies ! i = 0" if "i < length energies" for i
    using assms that by (simp add: all_set_conv_all_nth)
  then show ?thesis
    by (auto simp: onsetStrengthOf_def)
qed

lemma beatLoop_silent:
  assumes "\<forall>x \<in> set os. x = 0"
  shows "beatLoop bi os beat ts = ts"
  using assms
proof (induction bi os beat ts rule: beatLoop.induct)
  case (1 bi os beat ts)
  show ?case
  proof (cases "0 < bi \<and> beat < real (length os)")
    case True
    have z: "(let index = nat \<lfloor>beat\<rfloor> in if index < length os then ts + os ! index else ts) = ts"
      using "1.prems" by (simp add: Let_def)
    from True "1.IH"[OF True "1.prems"] z show ?thesis
      by (subst beatLoop.simps) simp
  next
    case False
    then show ?thesis by (subst beatLoop.simps) (simp only: if_False)
  qed
qed

lemma offsetLoop_silent:
  assumes "\<forall>x \<in> set os. x = 0"
  shows "offsetLoop bi os offset 0 = 0"
  using assms
proof (induction bi os offset "0::real" rule: offsetLoop.induct)
  case (1 bi os offset)
  show ?case
  proof (cases "real offset < bi")
    case True
    have m: "max 0 (beatLoop bi os (real offset) 0) = 0"
      using "1.prems" by (simp add: beatLoop_silent)
    from True "1.hyps"[OF True m "1.prems"] m show ?thesis
      by (subst offsetLoop.simps) simp
  next
    case False
    then show ?thesis by (subst offsetLoop.simps) (simp only: if_False)
  qed
qed

lemma detectTempo_silent: "detectTempo (replicate n 0) sr = 120"
proof -
  let ?starts = "frameStarts 512 0 (int (length (replicate n (0::real))) - int 1024)"
  let ?energies = "map (frameEnergy (replicate n 0) 1024) ?starts"
  have e0: "\<forall>x \<in> set ?energies. x = 0"
  proof
    fix x assume "x \<in> set ?energies"
    then obtain i where i: "i \<in> set ?starts" and x: "x = frameEnergy (replicate n 0) 1024 i"
      by auto
    from frameStarts_bound[OF i] have "i + 1024 \<le> n" by simp
    with x show "x = 0" by (simp add: frameEnergy_silent)
  qed
  then have o0: "\<forall>x \<in> set (onsetStrengthOf ?energies). x = 0"
    by (rule onsetStrength_silent)
  have step: "tempoStep f (onsetStrengthOf ?energies) (120, 0) bpm = (120, 0)" for f bpm
    using o0 by (simp add: tempoStep_def Let_def offsetLoop_silent)
  have fold0: "foldl (tempoStep f (onsetStrengthOf ?energies)) (120, 0) bpms = (120, 0)" for f bpms
    by (induction bpms) (simp_all only: foldl.simps step)
  show ?thesis
    unfolding detectTempo_def Let_def by (simp only: fold0 fst_conv)
qed

subsection \<open>Onset intervals\<close>

lemma energyLoop_returns:
  assumes "0 < w"
  shows "\<exists>es. energyLoop d w i acc = Some es"
proof (induction "nat (int (length d) - w - i)" arbitrary: i acc rule: less_induct)
  case less
  show ?case
  proof (cases "i < int (length d) - w")
    case True
    then have "nat (int (length d) - w - (i + w)) < nat (int (length d) - w - i)"
      using assms by linarith
    from less[OF this] obtain es where
      "energyLoop d w (i + w) (acc @ [windowEnergy d w i]) = Some es"
      by blast
    with True show ?thesis
      by (subst energyLoop.simps) simp
  next
    case False
    then show ?thesis
      by (subst energyLoop.simps) simp
  qed
qed

lemma windowEnergy_silent:
  assumes "0 \<le> i" and "i + w \<le> int n"
  shows "windowEnergy (replicate n 0) w i = 0"
  unfolding windowEnergy_def
  by (rule foldl_add_zero) (use assms in auto)

lemma energyLoop_silent:
  assumes "0 < w" and "0 \<le> i" and "\<forall>x \<in> set acc. x = 0"
  shows "\<exists>es. energyLoop (replicate n 0) w i acc = Some es \<and> (\<forall>x \<in> set es. x = 0)"
  using assms(2,3)
proof (induction "nat (int n - w - i)" arbitrary: i acc rule: less_induct)
  case less
  show ?case
  proof (cases "i < int (length (replicate n (0::real))) - w")
    case True
    then have m: "nat (int n - w - (i + w)) < nat (int n - w - i)"
      using assms(1) by simp
    have z: "windowEnergy (replicate n 0) w i = 0"
      using True less.prems(1) by (intro windowEnergy_silent) simp_all
    have acc': "\<forall>x \<in> set (acc @ [windowEnergy (replicate n 0) w i]). x = 0"
      using less.prems(2) z by simp
    have "0 \<le> i + w" using assms(1) less.prems(1) by simp
    from less.hyps[OF m this acc'] obtain es where
      "energyLoop (replicate n 0) w (i + w) (acc @ [windowEnergy (replicate n 0) w i]) = Some es"
      "\<forall>x \<in> set es. x = 0"
      by blast
    with True show ?thesis
      by (subst energyLoop.simps) simp
  next
    case False
    with less.prems(2) show ?thesis
      by (subst energyLoop.simps) simp
  qed
qed

lemma onsetsOf_silent:
  assumes "\<forall>x \<in> set es. x = (0::real)"
  shows "onsetsOf es w sr = []"
proof -
  have "es ! i = 0" if "i < length es" for i
    using assms that by (simp add: all_set_conv_all_nth)
  then have "filter (\<lambda>i. es ! i > es ! (i - 1) * 1.5 \<and> es ! i > 0.01) [1..<length es] = []"
    by (auto simp: filter_empty_conv)
  then show ?thesis by (simp add: onsetsOf_def)
qed

lemma onsetsOf_increasing:
  assumes "0 < w" and "0 < sr"
  shows "sorted_wrt (<) (onsetsOf es w sr)"
proof -
  let ?P = "\<lambda>i. es ! i > es ! (i - 1) * 1.5 \<and> es ! i > 0.01"
  have "sorted_wrt (<) (filter ?P [1..<length es])"
    by (rule sorted_wrt_filter) simp
  moreover have "real i * real_of_int w / sr < real j * real_of_int w / sr" if "i < j" for i j :: nat
    using that assms by (simp add: divide_strict_right_mono)
  ultimately show ?thesis
    unfolding onsetsOf_def sorted_wrt_map
    by (rule sorted_wrt_mono_rel[rotated]) simp
qed

lemma foldl_add_sum: "foldl (+) (a::real) xs = a + sum_list xs"
  by (induction xs arbitrary: a) simp_all

lemma sum_list_positive:
  fixes xs :: "real list"
  assumes "xs \<noteq> []" and "\<forall>x \<in> set xs. 0 < x"
  shows "0 < sum_list xs"
  using assms
proof (induction xs)
  case Nil
  then show ?case by simp
next
  case (Cons x xs)
  have "0 \<le> sum_list xs"
    using Cons.prems(2) by (intro sum_list_nonneg) (simp add: less_imp_le)
  with Cons.prems(2) show ?case by simp
qed

lemma avgInterval_positive:
  assumes "sorted_wrt (<) onsets" and "2 \<le> length onsets"
  shows "0 < foldl (+) 0 (intervalsOf onsets) / real (length (intervalsOf onsets))"
proof -
  have ne: "intervalsOf onsets \<noteq> []"
    using assms(2) by (cases onsets) (auto simp: intervalsOf_def)
  have "\<forall>x \<in> set (intervalsOf onsets). 0 < x"
  proof
    fix x assume "x \<in> set (intervalsOf onsets)"
    then obtain i where i: "1 \<le> i" "i < length onsets" and x: "x = onsets ! i - onsets ! (i - 1)"
      by (auto simp: intervalsOf_def)
    then have "onsets ! (i - 1) < onsets ! i"
      using sorted_wrt_nth_less[OF assms(1), of "i - 1" i] by simp
    with x show "0 < x" by simp
  qed
  with ne have "0 < sum_list (intervalsOf onsets)"
    by (rule sum_list_positive)
  moreover have "0 < real (length (intervalsOf onsets))"
    using ne by simp
  ultimately show ?thesis
    by (simp add: foldl_add_sum)
qed

lemma doubleUp_steps:
  assumes "60 \<le> t * 2 ^ n"
  shows "\<exists>r. doubleUp t = Some r \<and> 60 \<le> r"
  using assms
proof (induction n arbitrary: t)
  case 0
  then show ?case by (subst doubleUp.simps) simp
next
  case (Suc n)
  show ?case
  proof (cases "t < 60")
    case True
    have "60 \<le> (t * 2) * 2 ^ n" using Suc.prems by (simp add: mult.assoc)
    from Suc.IH[OF this] True show ?thesis
      by (subst doubleUp.simps) simp
  next
    case False
    then show ?thesis by (subst doubleUp.simps) simp
  qed
qed

lemma doubleUp_returns:
  assumes "0 < t"
  shows "\<exists>r. doubleUp t = Some r \<and> 60 \<le> r"
proof -
  obtain n where "60 / t < 2 ^ n"
    using real_arch_pow[of 2 "60 / t"] by auto
  then have "60 \<le> t * 2 ^ n"
    using assms by (simp add: field_simps)
  then show ?thesis by (rule doubleUp_steps)
qed

lemma halveDown_steps:
  assumes "60 \<le> t" and "t \<le> 200 * 2 ^ n"
  shows "\<exists>r. halveDown t = Some r \<and> 60 \<le> r \<and> r \<le> 200"
  using assms
proof (induction n arbitrary: t)
  case 0
  then show ?case by (subst halveDown.simps) simp
next
  case (Suc n)
  show ?case
  proof (cases "t > 200")
    case True
    have "60 \<le> t / 2" using True by simp
    moreover have "t / 2 \<le> 200 * 2 ^ n" using Suc.prems(2) by simp
    ultimately obtain r where "halveDown (t / 2) = Some r \<and> 60 \<le> r \<and> r \<le> 200"
      using Suc.IH by blast
    with True show ?thesis
      by (subst halveDown.simps) simp
  next
    case False
    with Suc.prems(1) show ?thesis by (subst halveDown.simps) simp
  qed
qed

lemma halveDown_returns:
  assumes "60 \<le> t"
  shows "\<exists>r. halveDown t = Some r \<and> 60 \<le> r \<and> r \<le> 200"
proof -
  obtain n where "t / 200 < 2 ^ n"
    using real_arch_pow[of 2 "t / 200"] by auto
  then have "t \<le> 200 * 2 ^ n"
    by (simp add: field_simps)
  with assms show ?thesis by (rule halveDown_steps)
qed

lemma round_in_range:
  fixes r :: real
  assumes "60 \<le> r" and "r \<le> 200"
  shows "60 \<le> round r \<and> round r \<le> 200"
proof -
  have "round (60::real) \<le> round r" using assms(1) by (rule round_mono)
  moreover have "round r \<le> round (200::real)" using assms(2) by (rule round_mono)
  ultimately show ?thesis by simp
qed

lemma detectTempoBatch_range:
  assumes "20 \<le> sr"
  shows "\<exists>bpm. detectTempoBatch d sr = Some bpm \<and> 60 \<le> bpm \<and> bpm \<le> 200"
proof -
  define w where "w = \<lfloor>sr * 0.05\<rfloor>"
  have "1 \<le> sr * 0.05" using assms by simp
  then have "\<lfloor>1::real\<rfloor> \<le> \<lfloor>sr * 0.05\<rfloor>" by (rule floor_mono)
  then have w: "0 < w" unfolding w_def by simp
  have sr: "0 < sr" using assms by simp
  obtain es where es: "energyLoop d w 0 [] = Some es"
    using energyLoop_returns[OF w] by blast
  let ?onsets = "onsetsOf es w sr"
  define avg where "avg = foldl (+) 0 (intervalsOf ?onsets) / real (length (intervalsOf ?onsets))"
  show ?thesis
  proof (cases "length ?onsets < 2")
    case True
    with es show ?thesis
      unfolding detectTempoBatch_def Let_def w_def[symmetric] by simp
  next
    case False
    have "sorted_wrt (<) ?onsets"
      using w sr by (rule onsetsOf_increasing)
    then have "0 < avg"
      unfolding avg_def using False by (intro avgInterval_positive) simp_all
    then have "0 < 60 / avg" by simp
    then obtain t1 where t1: "doubleUp (60 / avg) = Some t1" "60 \<le> t1"
      using doubleUp_returns by blast
    then obtain t2 where t2: "halveDown t1 = Some t2" "60 \<le> t2" "t2 \<le> 200"
      using halveDown_returns by blast
    have "detectTempoBatch d sr = Some (round t2)"
      unfolding detectTempoBatch_def Let_def w_def[symmetric]
      by (simp only: es option.case False if_False avg_def[symmetric] t1(1) t2(1))
    with round_in_range[OF t2(2,3)] show ?thesis by simp
  qed
qed

lemma detectTempoBatch_silent:
  assumes "20 \<le> sr"
  shows "detectTempoBatch (replicate n 0) sr = Some 120"
proof -
  define w where "w = \<lfloor>sr * 0.05\<rfloor>"
  have "1 \<le> sr * 0.05" using assms by simp
  then have "\<lfloor>1::real\<rfloor> \<le> \<lfloor>sr * 0.05\<rfloor>" by (rule floor_mono)
  then have w: "0 < w" unfolding w_def by simp
  obtain es where es: "energyLoop (replicate n 0) w 0 [] = Some es" "\<forall>x \<in> set es. x = 0"
    using energyLoop_silent[OF w, of 0 "[]" n] by auto
  then have "onsetsOf es w sr = []" by (simp add: onsetsOf_silent)
  with es(1) show ?thesis
    unfolding detectTempoBatch_def Let_def w_def[symmetric] by simp
qed

text \<open>
  Claim C4. The single-file estimator returns a whole number of beats per minute between
  60 and 200 on every buffer and sample rate, and 120 on a silent buffer of any length.
  The batch estimator, for a sample rate of at least 20 Hz (so that its window of 50 ms
  holds at least one sample and its loops end), returns a whole number between 60 and
  200 as well, and 120 on a silent buffer.
\<close>

theorem detectTempo_bounds_and_silence:
  "60 \<le> detectTempo samples sr \<and> detectTempo samples sr \<le> 200 \<and>
   detectTempo (replicate n 0) sr = 120 \<and>
   (20 \<le> sr \<longrightarrow>
      (\<exists>bpm. detectTempoBatch samples sr = Some bpm \<and> 60 \<le> bpm \<and> bpm \<le> 200) \<and>
      detectTempoBatch (replicate n 0) sr = Some 120)"
  using detectTempo_range[of samples sr] detectTempo_silent[of n sr]
        detectTempoBatch_range[of sr samples] detectTempoBatch_silent[of sr n]
  by blast

theorem detectTempo_bounds_and_silence_witness:
  "(20::real) \<le> 44100 \<and>
   60 \<le> detectTempo (replicate 3000 0) 44100 \<and> detectTempo (replicate 3000 0) 44100 \<le> 200 \<and>
   detectTempo (replicate 3000 0) 44100 = 120 \<and>
   detectTempoBatch (replicate 3000 0) 44100 = Some 120"
proof -
  have h: "(20::real) \<le> 44100" by simp
  from detectTempo_bounds_and_silence[of "replicate 3000 0" 44100 3000] h
  show ?thesis by blast
qed

section \<open>Note segmenter\<close>

lemma quantizeNotes_length: "length (quantizeNotes ns t q) = length ns"
  by (simp add: quantizeNotes_def Let_def)

lemma quantizeNotes_pitch: "map pitch (quantizeNotes ns t q) = map pitch ns"
  by (simp add: quantizeNotes_def Let_def quantizeNote_def)

text \<open>
  Claim C3. The segmenter returns the first 64 of the notes it has segmented, and the
  melody of the analysis result (quantized or not) has as many entries: 64 when more
  than 64 notes were segmented, all of them otherwise, never more than 64. Its pitches
  are those of the earliest segmented notes, in their order.
\<close>

theorem melody_capped_at_64:
  "extractedNotes (extractMelody samples sr params) = take 64 (segmentedNotes samples sr params) \<and>
   length (pipelineMelody samples sr params) = min 64 (length (segmentedNotes samples sr params)) \<and>
   length (pipelineMelody samples sr params) \<le> 64 \<and>
   map pitch (pipelineMelody samples sr params)
     = take 64 (map pitch (segmentedNotes samples sr params))"
  by (simp add: pipelineMelody_def extractMelody_def Let_def quantizeNotes_length
                quantizeNotes_pitch take_map)

lemma closeNote_plain:
  "list_all (emittedPlain m) (segNotes st) \<Longrightarrow> list_all (emittedPlain m) (closeNote m e st)"
  by (simp add: closeNote_def Let_def emittedPlain_def)

lemma segmentStep_plain:
  assumes "list_all (emittedPlain m) (segNotes st)"
  shows "list_all (emittedPlain m) (segNotes (segmentStep thr m sr st obs))"
proof -
  obtain i rms freq where obs: "obs = (i, rms, freq)" by (cases obs)
  let ?st1 = "st\<lparr>histogram := (histogram st)
                 [nat (frequencyToPitchClass freq) :=
                    histogram st ! nat (frequencyToPitchClass freq) + rms]\<rparr>"
  have a: "list_all (emittedPlain m) (closeNote m (real i / sr) st)"
    using assms by (rule closeNote_plain)
  have "list_all (emittedPlain m) (segNotes ?st1)" using assms by simp
  then have b: "list_all (emittedPlain m) (closeNote m (real i / sr) ?st1)"
    by (rule closeNote_plain)
  show ?thesis
    unfolding obs segmentStep_def Let_def using assms a b by simp
qed

lemma segmentFrames_plain:
  "list_all (emittedPlain (minNoteDuration params / 1000))
     (segNotes (segmentFrames samples sr params))"
  unfolding segmentFrames_def Let_def
  by (rule foldl_invariant[where P = "\<lambda>st. list_all (emittedPlain (minNoteDuration params / 1000)) (segNotes st)"])
     (simp_all add: initialState_def segmentStep_plain)

lemma segmentedNotes_plain:
  "list_all (emittedPlain (minNoteDuration params / 1000)) (segmentedNotes samples sr params)"
  unfolding segmentedNotes_def by (rule closeNote_plain) (rule segmentFrames_plain)

lemma closeNoteBatch_vel:
  "list_all (emittedWithVelocity vs m) (segNotes st) \<Longrightarrow> v \<in> set vs \<Longrightarrow> 0 \<le> v \<Longrightarrow> v \<le> 1 \<Longrightarrow>
   list_all (emittedWithVelocity vs m) (closeNoteBatch m e v st)"
  by (simp add: closeNoteBatch_def Let_def emittedWithVelocity_def)

lemma batchStep_vel:
  assumes "list_all (emittedWithVelocity vs m) (segNotes st)" and "0 \<le> fst (snd obs)"
    and "min 1 (fst (snd obs) * 10) \<in> set vs"
  shows "list_all (emittedWithVelocity vs m) (segNotes (batchStep amp m sr st obs))"
proof -
  obtain i rms freq where obs: "obs = (i, rms, freq)" by (cases obs)
  have "0 \<le> rms" using assms(2) obs by simp
  then have v: "0 \<le> min 1 (rms * 10)" "min 1 (rms * 10) \<le> 1" by simp_all
  have mem: "min 1 (rms * 10) \<in> set vs" using assms(3) obs by simp
  have a: "list_all (emittedWithVelocity vs m) (closeNoteBatch m (real i / sr) (min 1 (rms * 10)) st)"
    using assms(1) mem v by (rule closeNoteBatch_vel)
  show ?thesis
    unfolding obs batchStep_def Let_def using assms(1) a by simp
qed

lemma rmsOf_nonneg: "0 \<le> rmsOf frame"
proof -
  have "0 \<le> foldl (\<lambda>acc x. acc + x * x) a frame" if "0 \<le> a" for a :: real
    using that by (induction frame arbitrary: a) simp_all
  then show ?thesis by (simp add: rmsOf_def)
qed

lemma batchNotes_vel:
  "list_all (emittedWithVelocity (batchVelocities d) (minNoteDuration params / 1000))
     (batchNotes d sr params)"
proof -
  let ?m = "minNoteDuration params / 1000"
  let ?P = "\<lambda>st :: SegState. list_all (emittedWithVelocity (batchVelocities d) ?m) (segNotes st)"
  have "?P (foldl (batchStep ((100 - pitchSensitivity params) / 1000) ?m sr)
              (initialState\<lparr>histogram := []\<rparr>)
              (map (observeFrameBatch 2048 d sr) (frameStarts 512 0 (int (length d) - int 2048))))"
  proof (rule foldl_invariant[where P = ?P])
    show "?P (initialState\<lparr>histogram := []\<rparr>)" by (simp add: initialState_def)
  next
    fix st :: SegState and obs :: "nat \<times> real \<times> real"
    assume st: "?P st"
      and "obs \<in> set (map (observeFrameBatch 2048 d sr) (frameStarts 512 0 (int (length d) - int 2048)))"
    then have "0 \<le> fst (snd obs)" and "min 1 (fst (snd obs) * 10) \<in> set (batchVelocities d)"
      by (auto simp: observeFrameBatch_def Let_def rmsOf_nonneg batchVelocities_def)
    with st show "?P (batchStep ((100 - pitchSensitivity params) / 1000) ?m sr st obs)"
      by (rule batchStep_vel)
  qed
  then show ?thesis
    unfolding batchNotes_def Let_def
    by (rule closeNoteBatch_vel) (simp_all add: batchVelocities_def)
qed

subsection \<open>A constant buffer at 44.1 kHz\<close>

lemma foldl_const_sum:
  fixes a0 :: real
  assumes "\<And>j. j \<in> set js \<Longrightarrow> g j = c"
  shows "foldl (\<lambda>a j. a + g j) a0 js = a0 + real (length js) * c"
  using assms by (induction js arbitrary: a0) (auto simp: algebra_simps)

lemma autoCorr_dc: "autoCorr (replicate n 1) p = real (n - p)"
proof -
  have "foldl (\<lambda>corr i. corr + replicate n (1::real) ! i * replicate n 1 ! (i + p)) 0 [0..<n - p]
          = 0 + real (length [0..<n - p]) * 1"
    by (rule foldl_const_sum) auto
  then show ?thesis by (simp add: autoCorr_def)
qed

lemma pitchStep_keep:
  "(\<And>p. p \<in> set ps \<Longrightarrow> autoCorr frame p \<le> fst best) \<Longrightarrow>
   foldl (pitchStep frame) best ps = best"
proof (induction ps)
  case Nil
  show ?case by simp
next
  case (Cons a ps)
  have "autoCorr frame a \<le> fst best" using Cons.prems[of a] by simp
  then have "pitchStep frame best a = best"
    by (simp add: pitchStep_def Let_def)
  moreover have "foldl (pitchStep frame) best ps = best"
    using Cons.prems by (intro Cons.IH) simp
  ultimately show ?case by simp
qed

lemma pitch_fold_dc:
  assumes "a < b" and "a < n"
  shows "foldl (pitchStep (replicate n 1)) (0, 0) [a..<b] = (real (n - a), a)"
proof -
  have split: "[a..<b] = a # [Suc a..<b]" using assms(1) by (simp add: upt_conv_Cons)
  have first: "pitchStep (replicate n 1) (0, 0) a = (real (n - a), a)"
    using assms(2) by (simp add: pitchStep_def Let_def autoCorr_dc)
  have "foldl (pitchStep (replicate n 1)) (real (n - a), a) [Suc a..<b] = (real (n - a), a)"
    by (rule pitchStep_keep) (auto simp: autoCorr_dc)
  with split first show ?thesis by simp
qed

lemma detectPitch_dc: "detectPitch (replicate 4096 1) 44100 = 44100 / 44"
proof -
  have f1: "nat \<lfloor>(44100::real) / 1000\<rfloor> = 44" by simp
  have f2: "nat \<lfloor>(44100::real) / 80\<rfloor> = 551" by simp
  have "foldl (pitchStep (replicate 4096 1)) (0, 0) [44..<551] = (real (4096 - 44), 44)"
    by (rule pitch_fold_dc) simp_all
  then show ?thesis
    unfolding detectPitch_def Let_def f1 f2 by simp
qed

lemma rmsOf_dc: "0 < n \<Longrightarrow> rmsOf (replicate n 1) = 1"
proof -
  assume n: "0 < n"
  have "foldl (\<lambda>acc x. acc + x * x) a (replicate n (1::real)) = a + real n" for a
    by (induction n arbitrary: a) simp_all
  then show ?thesis using n by (simp add: rmsOf_def)
qed


lemma log2_ratio_bounds:
  "9 / 8 \<le> log 2 (2205 / 968 :: real) \<and> log 2 (2205 / 968 :: real) < 29 / 24"
proof -
  let ?r = "2205 / 968 :: real"
  have p8: "(2 powr (9 / 8)) ^ 8 = (2::real) ^ 9"
    by (simp add: powr_power)
  have "(2::real) ^ 9 \<le> ?r ^ 8" by (simp add: power_divide)
  then have "(2 powr (9 / 8)) ^ Suc 7 \<le> ?r ^ Suc 7" using p8 by simp
  then have lo: "2 powr (9 / 8) \<le> ?r"
    by (rule power_le_imp_le_base) simp
  have p24: "(2 powr (29 / 24)) ^ 24 = (2::real) ^ 29"
    by (simp add: powr_power)
  have "?r ^ 24 < (2::real) ^ 29" by (simp add: power_divide)
  then have "?r ^ 24 < (2 powr (29 / 24)) ^ 24" using p24 by simp
  then have hi: "?r < 2 powr (29 / 24)"
    by (rule power_less_imp_less_base) simp
  have "(9 / 8 \<le> log 2 ?r) = (2 powr (9 / 8) \<le> ?r)"
    by (rule le_log_iff) simp_all
  with lo have l1: "9 / 8 \<le> log 2 ?r" by (simp only:)
  have "(log 2 ?r < 29 / 24) = (?r < 2 powr (29 / 24))"
    by (rule log_less_iff) simp_all
  with hi have l2: "log 2 ?r < 29 / 24" by (simp only:)
  from l1 l2 show ?thesis by (rule conjI)
qed

lemma halfSteps_dc:
  "141 / 2 \<le> 12 * log 2 (44100 / 44 / c0) \<and> 12 * log 2 (44100 / 44 / c0) < 143 / 2"
proof -
  have eq: "44100 / 44 / c0 = (2205 / 968) * 2 powr 4.75"
    by (simp add: c0_def powr_minus field_simps)
  have "log 2 (44100 / 44 / c0) = log 2 ((2205 / 968) * 2 powr 4.75)"
    by (simp only: eq)
  also have "\<dots> = log 2 (2205 / 968) + log 2 (2 powr 4.75)"
    by (rule log_mult_pos) simp_all
  also have "log 2 (2 powr 4.75) = (4.75::real)"
    by simp
  finally have e: "log 2 (44100 / 44 / c0) = log 2 (2205 / 968) + 19 / 4"
    by simp
  from log2_ratio_bounds have l1: "9 / 8 \<le> log 2 (2205 / 968 :: real)"
    and l2: "log 2 (2205 / 968 :: real) < 29 / 24"
    by blast+
  have lin: "9 / 8 \<le> x \<Longrightarrow> x < 29 / 24 \<Longrightarrow>
               141 / 2 \<le> 12 * (x + 19 / 4) \<and> 12 * (x + 19 / 4) < 143 / 2" for x :: real
    by simp
  from lin[OF l1 l2] have a: "141 / 2 \<le> 12 * (log 2 (2205 / 968) + 19 / 4)"
    and b: "12 * (log 2 (2205 / 968) + 19 / 4) < 143 / 2"
    by blast+
  from a b show ?thesis by (simp only: e)
qed

lemma frequencyToNote_dc: "frequencyToNote (44100 / 44) = ''b5''"
proof -
  define hs where "hs = 12 * log 2 (44100 / 44 / c0)"
  have b: "141 / 2 \<le> hs" "hs < 143 / 2" using halfSteps_dc by (simp_all add: hs_def)
  have oct: "\<lfloor>hs / 12\<rfloor> = 5" using b by (simp add: floor_eq_iff)
  have rem: "jsRemReal hs 12 = hs - 60" using b oct by (simp add: jsRemReal_def)
  have rnd: "round (hs - 60) = 11" using b by (simp add: round_def floor_eq_iff)
  have cl: "jsRemInt (jsRemInt 11 12 + 12) 12 = 11" by (simp add: jsRemInt_def)
  have s: "showInt 5 = ''5''" by code_simp
  have "\<not> (44100 / 44 :: real) < 50" by simp
  then show ?thesis
    unfolding frequencyToNote_def Let_def hs_def[symmetric]
    by (simp add: oct rem rnd cl noteNames_def s)
qed

lemma frequencyToPitchClass_dc: "frequencyToPitchClass (44100 / 44) = 11"
proof -
  define hs where "hs = 12 * log 2 (44100 / 44 / c0)"
  have b: "141 / 2 \<le> hs" "hs < 143 / 2" using halfSteps_dc by (simp_all add: hs_def)
  have rnd: "round hs = 71" using b by (simp add: round_def floor_eq_iff)
  have cl: "jsRemInt (jsRemInt 71 12 + 12) 12 = 11" by (simp add: jsRemInt_def)
  have "\<not> (44100 / 44 :: real) < 50" by simp
  then show ?thesis
    unfolding frequencyToPitchClass_def Let_def hs_def[symmetric]
    by (simp add: rnd cl)
qed

subsection \<open>Both segmenters on constant buffers\<close>

lemma frameStarts_one: "frameStarts 2048 0 1 = [0]"
  by code_simp

lemma frameStarts_two: "frameStarts 512 0 513 = [0, 512]"
  by code_simp

lemma dc_pitch_value: "(44100 / 44 :: real) = 11025 / 11"
  by simp

lemma frequencyToNote_dc_norm: "frequencyToNote (11025 / 11) = ''b5''"
  using frequencyToNote_dc by (simp only: dc_pitch_value)

lemma frequencyToPitchClass_dc_norm: "frequencyToPitchClass (11025 / 11) = 11"
  using frequencyToPitchClass_dc by (simp only: dc_pitch_value)

lemma emittedPlain_D:
  "emittedPlain m n \<Longrightarrow> velocity n = None \<and> (\<exists>d. duration n = Some d \<and> m < d)"
  by (cases "duration n") (simp_all add: emittedPlain_def)

lemma emittedWithVelocity_D:
  "emittedWithVelocity vs m n \<Longrightarrow>
   \<exists>v d. velocity n = Some v \<and> v \<in> set vs \<and> 0 \<le> v \<and> v \<le> 1 \<and>
         duration n = Some d \<and> m \<le> d"
  by (cases "velocity n"; cases "duration n") (simp_all add: emittedWithVelocity_def)

lemma observeFrame_dc:
  "observeFrame 4096 (replicate 4097 1) 44100 0 = (0, 1, 44100 / 44)"
  by (simp add: observeFrame_def Let_def rmsOf_dc detectPitch_dc)

lemma segmentFrames_dc:
  "segmentFrames (replicate 4097 1) 44100 defaultAnalysisParams =
     \<lparr>lastNote = ''b5'', noteStartTime = 0, segNotes = [],
      histogram = (replicate 12 0)[11 := 1]\<rparr>"
proof -
  have starts: "frameStarts 2048 0 (int (length (replicate 4097 (1::real))) - int 4096) = [0]"
    using frameStarts_one by simp
  have step: "segmentStep (7 / 1000) (1 / 20) 44100 initialState (0, 1, 11025 / 11) =
     \<lparr>lastNote = ''b5'', noteStartTime = 0, segNotes = [],
      histogram = (replicate 12 0)[11 := 1]\<rparr>"
    by (simp add: segmentStep_def Let_def frequencyToNote_dc_norm frequencyToPitchClass_dc_norm
                  initialState_def closeNote_def)
  show ?thesis
    unfolding segmentFrames_def Let_def starts
    by (simp add: observeFrame_dc defaultAnalysisParams_def step)
qed

lemma segmentedNotes_dc:
  "segmentedNotes (replicate 4097 1) 44100 defaultAnalysisParams =
     [\<lparr>pitch = ''b5'', time = 0, duration = Some (4097 / 44100), velocity = None\<rparr>]"
  unfolding segmentedNotes_def segmentFrames_dc
  by (simp add: closeNote_def Let_def defaultAnalysisParams_def)

lemma detectPitchBatch_dc: "detectPitchBatch (replicate 2048 1) 44100 = 44100 / 44"
proof -
  have f1: "nat \<lfloor>(44100::real) / 1000\<rfloor> = 44" by simp
  have f2: "nat \<lfloor>(44100::real) / 80\<rfloor> = 551" by simp
  have "foldl (pitchStep (replicate 2048 1)) (0, 0) [44..<551] = (real (2048 - 44), 44)"
    by (rule pitch_fold_dc) simp_all
  then show ?thesis
    unfolding detectPitchBatch_def Let_def f1 f2 by simp
qed

lemma frequencyToNoteBatch_dc: "frequencyToNoteBatch (44100 / 44) = ''b5''"
proof -
  define hs where "hs = 12 * log 2 (44100 / 44 / 440 :: real)"
  have "(44100 / 44 / 440 :: real) = 2205 / 968" by simp
  then have hs: "hs = 12 * log 2 (2205 / 968)" by (simp only: hs_def)
  from log2_ratio_bounds have l1: "9 / 8 \<le> log 2 (2205 / 968 :: real)"
    and l2: "log 2 (2205 / 968 :: real) < 29 / 24"
    by blast+
  have lin: "9 / 8 \<le> x \<Longrightarrow> x < 29 / 24 \<Longrightarrow> 27 / 2 \<le> 12 * x \<and> 12 * x < 29 / 2" for x :: real
    by simp
  from lin[OF l1 l2] hs have b: "27 / 2 \<le> hs" "hs < 29 / 2" by simp_all
  have rnd: "round hs = 14" using b by (simp add: round_def floor_eq_iff)
  have s: "showInt 5 = ''5''" by code_simp
  have fl: "\<lfloor>(71::real) / 12\<rfloor> = 5" by simp
  have "\<not> (44100 / 44 :: real) \<le> 0" by simp
  then show ?thesis
    unfolding frequencyToNoteBatch_def Let_def hs_def[symmetric]
    by (simp add: rnd jsRemInt_def noteNames_def s fl)
qed

lemma frequencyToNoteBatch_dc_norm: "frequencyToNoteBatch (11025 / 11) = ''b5''"
  using frequencyToNoteBatch_dc by (simp only: dc_pitch_value)

text \<open>The batch loop on a constant buffer: the note it returns has a velocity.\<close>

lemma batchNotes_dc:
  "batchNotes (replicate 2561 1) 44100 defaultAnalysisParams =
     [\<lparr>pitch = ''b5'', time = 0, duration = Some (2561 / 44100), velocity = Some (4 / 5)\<rparr>]"
proof -
  have starts: "frameStarts 512 0 (int (length (replicate 2561 (1::real))) - int 2048) = [0, 512]"
    using frameStarts_two by simp
  have o1: "observeFrameBatch 2048 (replicate 2561 1) 44100 0 = (0, 1, 44100 / 44)"
    by (simp add: observeFrameBatch_def Let_def rmsOf_dc detectPitchBatch_dc)
  have o2: "observeFrameBatch 2048 (replicate 2561 1) 44100 512 = (512, 1, 44100 / 44)"
    by (simp add: observeFrameBatch_def Let_def rmsOf_dc detectPitchBatch_dc)
  let ?s1 = "\<lparr>lastNote = ''b5'', noteStartTime = 0, segNotes = [], histogram = []\<rparr>"
  have s1: "batchStep (3 / 100) (1 / 20) 44100 (initialState\<lparr>histogram := []\<rparr>)
              (0, 1, 11025 / 11) = ?s1"
    by (simp add: batchStep_def Let_def frequencyToNoteBatch_dc_norm initialState_def
                  closeNoteBatch_def)
  have s2: "batchStep (3 / 100) (1 / 20) 44100 ?s1 (512, 1, 11025 / 11) = ?s1"
    by (simp add: batchStep_def Let_def frequencyToNoteBatch_dc_norm)
  show ?thesis
    unfolding batchNotes_def Let_def starts
    by (simp add: o1 o2 defaultAnalysisParams_def s1 s2 closeNoteBatch_def Let_def)
qed

subsection \<open>What the two segmenters emit\<close>

text \<open>
  Every note that \<open>extractMelody\<close> returns has no velocity and a duration strictly
  greater than the threshold, whatever the buffer and the parameters.
\<close>

lemma extractMelody_notes_plain:
  "\<forall>n \<in> set (extractedNotes (extractMelody samples sr params)).
      velocity n = None \<and> (\<exists>d. duration n = Some d \<and> minNoteDuration params / 1000 < d)"
proof
  fix n assume "n \<in> set (extractedNotes (extractMelody samples sr params))"
  then have "n \<in> set (segmentedNotes samples sr params)"
    by (auto simp: extractMelody_def dest: in_set_takeD)
  then have "emittedPlain (minNoteDuration params / 1000) n"
    using segmentedNotes_plain[of params samples sr] by (simp add: list_all_iff)
  then show "velocity n = None \<and> (\<exists>d. duration n = Some d \<and> minNoteDuration params / 1000 < d)"
    by (rule emittedPlain_D)
qed

text \<open>
  The batch page's segmenter does what \<open>extractMelody\<close> leaves out: every note it
  returns has a duration at or above the threshold and a velocity between 0 and 1,
  which is \<open>min(1, 10 rms)\<close> of one of the frames, or the 0.8 of the final flush.
\<close>

lemma batchNotes_velocity_from_rms:
  "\<forall>n \<in> set (batchNotes channelData sr params).
      \<exists>v d. velocity n = Some v \<and> v \<in> set (batchVelocities channelData) \<and> 0 \<le> v \<and> v \<le> 1 \<and>
            duration n = Some d \<and> minNoteDuration params / 1000 \<le> d"
proof
  fix n assume "n \<in> set (batchNotes channelData sr params)"
  then have "emittedWithVelocity (batchVelocities channelData) (minNoteDuration params / 1000) n"
    using batchNotes_vel[of channelData params sr] by (simp add: list_all_iff)
  then show "\<exists>v d. velocity n = Some v \<and> v \<in> set (batchVelocities channelData) \<and> 0 \<le> v \<and> v \<le> 1 \<and>
          duration n = Some d \<and> minNoteDuration params / 1000 \<le> d"
    by (rule emittedWithVelocity_D)
qed

text \<open>
  Claim C6. Every note the segmenter emits when it closes a note whose duration is at
  or above the minimum-duration threshold carries a velocity derived from the frame
  amplitude, scaled and clamped to the interval from 0 to 1; shorter notes are
  discarded. \<open>extractMelody\<close> does not do this. A buffer of 4097 constant samples at
  44.1 kHz with the default parameters gives one note of 92.9 ms, above the threshold
  of 50 ms, and that note has no velocity. And a note that a silent frame closes when
  its duration is exactly the threshold (160 ms, at 192 kHz) is discarded, not emitted.
\<close>

theorem extractMelody_omits_velocity:
  "extractedNotes (extractMelody (replicate 4097 1) 44100 defaultAnalysisParams) =
     [\<lparr>pitch = ''b5'', time = 0, duration = Some (4097 / 44100), velocity = None\<rparr>] \<and>
   segNotes (segmentStep (7 / 1000) (160 / 1000) 192000 inProgressA4 (30720, 0, 0)) = []"
  by (simp add: extractMelody_def segmentedNotes_dc segmentStep_def closeNote_def Let_def
                inProgressA4_def)

subsection \<open>Frames without a pitch\<close>

lemma rest_low: "freq < 50 \<Longrightarrow> frequencyToNote freq = ''rest''"
  by (simp add: frequencyToNote_def)

lemma pc_low: "freq < 50 \<Longrightarrow> frequencyToPitchClass freq = - 1"
  by (simp add: frequencyToPitchClass_def)

subsection \<open>A buffer with a loud frame that has no pitch\<close>

lemma foldl_add_sum_upt:
  fixes F :: "nat \<Rightarrow> real"
  shows "foldl (\<lambda>c j. c + F j) a [0..<m] = a + (\<Sum>j<m. F j)"
  by (induction m arbitrary: a) (simp_all add: add.assoc)

lemma sum_indicator:
  fixes P :: "nat \<Rightarrow> bool"
  shows "(\<Sum>j<m. if P j then (1::real) else 0) = real (card {j. j < m \<and> P j})"
proof (induction m)
  case 0
  show ?case by simp
next
  case (Suc m)
  have fin: "finite {j. j < m \<and> P j}" by simp
  have split: "{j. j < Suc m \<and> P j} = (if P m then insert m {j. j < m \<and> P j} else {j. j < m \<and> P j})"
    by (auto simp: less_Suc_eq)
  have "m \<notin> {j. j < m \<and> P j}" by simp
  with fin have "card (insert m {j. j < m \<and> P j}) = Suc (card {j. j < m \<and> P j})"
    by (rule card_insert_disjoint)
  with Suc split show ?case by simp
qed

text \<open>A frame cut out of a buffer that is given by a function.\<close>

lemma frame_of_map:
  assumes "i + n \<le> N"
  shows "take n (drop i (map g [0..<N])) = map (\<lambda>j. g (i + j)) [0..<n]"
proof (rule nth_equalityI)
  show "length (take n (drop i (map g [0..<N]))) = length (map (\<lambda>j. g (i + j)) [0..<n])"
    using assms by simp
next
  fix k assume "k < length (take n (drop i (map g [0..<N])))"
  then have k: "k < n" by simp
  then show "take n (drop i (map g [0..<N])) ! k = map (\<lambda>j. g (i + j)) [0..<n] ! k"
    using assms by simp
qed

lemma autoCorr_indicator:
  fixes S :: "nat \<Rightarrow> bool"
  shows "autoCorr (map (\<lambda>j. if S j then 1 else 0) [0..<n]) p
           = real (card {j. j < n - p \<and> S j \<and> S (j + p)})"
proof -
  let ?h = "\<lambda>j. if S j then (1::real) else 0"
  have "foldl (\<lambda>c j. c + map ?h [0..<n] ! j * map ?h [0..<n] ! (j + p)) 0 [0..<n - p]
          = foldl (\<lambda>c j. c + (if S j \<and> S (j + p) then 1 else 0)) 0 [0..<n - p]"
    by (rule foldl_cong) auto
  also have "\<dots> = (\<Sum>j<n - p. if S j \<and> S (j + p) then (1::real) else 0)"
    by (simp add: foldl_add_sum_upt)
  also have "\<dots> = real (card {j. j < n - p \<and> S j \<and> S (j + p)})"
    by (simp add: sum_indicator)
  finally show ?thesis by (simp add: autoCorr_def)
qed

lemma rmsOf_indicator:
  fixes S :: "nat \<Rightarrow> bool"
  shows "rmsOf (map (\<lambda>j. if S j then 1 else 0) [0..<n])
           = sqrt (real (card {j. j < n \<and> S j}) / real n)"
proof -
  let ?h = "\<lambda>j. if S j then (1::real) else 0"
  have "foldl (\<lambda>acc x. acc + x * x) a (map ?h js) = foldl (\<lambda>c j. c + ?h j) a js" for a js
    by (induction js arbitrary: a) simp_all
  then have "foldl (\<lambda>acc x. acc + x * x) 0 (map ?h [0..<n]) = (\<Sum>j<n. ?h j)"
    by (simp add: foldl_add_sum_upt)
  then show ?thesis
    by (simp add: rmsOf_def sum_indicator)
qed


lemma threeRuns_frame:
  assumes "i + 4096 \<le> 8193"
  shows "take 4096 (drop i threeRunsBuffer) = map (\<lambda>j. if inRuns (i + j) then 1 else 0) [0..<4096]"
proof -
  have eq: "threeRuns = (\<lambda>k. if inRuns k then 1 else 0)"
    by (rule ext) (simp add: threeRuns_def)
  show ?thesis
    unfolding threeRunsBuffer_def frame_of_map[OF assms] eq by (rule refl)
qed

lemma threeRuns_corr:
  assumes "i + 4096 \<le> 8193"
  shows "autoCorr (take 4096 (drop i threeRunsBuffer)) p
           = real (card {j. j < 4096 - p \<and> inRuns (i + j) \<and> inRuns (i + (j + p))})"
  unfolding threeRuns_frame[OF assms] by (rule autoCorr_indicator)

lemma card_below: "card {j::nat. j < n} = n"
proof -
  have "{j::nat. j < n} = {..<n}" by auto
  then show ?thesis by simp
qed

lemma card_between: "card {j::nat. a \<le> j \<and> j < b} = b - a"
proof -
  have "{j::nat. a \<le> j \<and> j < b} = {a..<b}" by auto
  then show ?thesis by simp
qed

lemma frame0_corr:
  assumes "44 \<le> p" and "p < 551"
  shows "autoCorr (take 4096 (drop 0 threeRunsBuffer)) p = real (100 - p)"
proof -
  have "{j. j < 4096 - p \<and> inRuns (0 + j) \<and> inRuns (0 + (j + p))} = {j. j < 100 - p}"
    using assms by (auto simp: inRuns_def)
  then have "card {j. j < 4096 - p \<and> inRuns (0 + j) \<and> inRuns (0 + (j + p))} = 100 - p"
    by (simp only: card_below)
  moreover have "autoCorr (take 4096 (drop 0 threeRunsBuffer)) p
      = real (card {j. j < 4096 - p \<and> inRuns (0 + j) \<and> inRuns (0 + (j + p))})"
    by (rule threeRuns_corr) simp
  ultimately show ?thesis by (simp only: of_nat_0)
qed

lemma frame1_corr:
  assumes "44 \<le> p" and "p < 551"
  shows "autoCorr (take 4096 (drop 2048 threeRunsBuffer)) p = 0"
proof -
  have "{j. j < 4096 - p \<and> inRuns (2048 + j) \<and> inRuns (2048 + (j + p))} = {}"
    using assms by (auto simp: inRuns_def)
  then have "card {j. j < 4096 - p \<and> inRuns (2048 + j) \<and> inRuns (2048 + (j + p))} = 0"
    by (simp only: card.empty)
  moreover have "autoCorr (take 4096 (drop 2048 threeRunsBuffer)) p
      = real (card {j. j < 4096 - p \<and> inRuns (2048 + j) \<and> inRuns (2048 + (j + p))})"
    by (rule threeRuns_corr) simp
  ultimately show ?thesis by (simp only: of_nat_0)
qed

lemma frame2_corr:
  assumes "44 \<le> p" and "p < 551"
  shows "autoCorr (take 4096 (drop 4096 threeRunsBuffer)) p = real (100 - p)"
proof -
  have "{j. j < 4096 - p \<and> inRuns (4096 + j) \<and> inRuns (4096 + (j + p))}
          = {j. 2048 \<le> j \<and> j < 2148 - p}"
    using assms by (auto simp: inRuns_def)
  then have "card {j. j < 4096 - p \<and> inRuns (4096 + j) \<and> inRuns (4096 + (j + p))}
               = 2148 - p - 2048"
    by (simp only: card_between)
  also have "\<dots> = 100 - p" by simp
  finally have "card {j. j < 4096 - p \<and> inRuns (4096 + j) \<and> inRuns (4096 + (j + p))} = 100 - p" .
  moreover have "autoCorr (take 4096 (drop 4096 threeRunsBuffer)) p
      = real (card {j. j < 4096 - p \<and> inRuns (4096 + j) \<and> inRuns (4096 + (j + p))})"
    by (rule threeRuns_corr) simp
  ultimately show ?thesis by (simp only:)
qed

lemma pitch_fold_first:
  assumes "a < b" and "0 < autoCorr frame a"
    and "\<And>p. a < p \<Longrightarrow> p < b \<Longrightarrow> autoCorr frame p \<le> autoCorr frame a"
  shows "foldl (pitchStep frame) (0, 0) [a..<b] = (autoCorr frame a, a)"
proof -
  have split: "[a..<b] = a # [Suc a..<b]" using assms(1) by (simp add: upt_conv_Cons)
  have first: "pitchStep frame (0, 0) a = (autoCorr frame a, a)"
    using assms(2) by (simp add: pitchStep_def Let_def)
  have "foldl (pitchStep frame) (autoCorr frame a, a) [Suc a..<b] = (autoCorr frame a, a)"
    by (rule pitchStep_keep) (use assms(3) in auto)
  with split first show ?thesis by simp
qed

lemma period_floors:
  "nat \<lfloor>(44100::real) / 1000\<rfloor> = 44" "nat \<lfloor>(44100::real) / 80\<rfloor> = 551"
  by simp_all

lemma detectPitch_pitched:
  assumes "\<And>p. 44 \<le> p \<Longrightarrow> p < 551 \<Longrightarrow> autoCorr frame p = real (100 - p)"
  shows "detectPitch frame 44100 = 11025 / 11"
proof -
  have "foldl (pitchStep frame) (0, 0) [44..<551] = (autoCorr frame 44, 44)"
  proof (rule pitch_fold_first)
    show "(44::nat) < 551" by simp
    show "0 < autoCorr frame 44" by (simp add: assms)
    fix p :: nat assume "44 < p" "p < 551"
    then show "autoCorr frame p \<le> autoCorr frame 44" by (simp add: assms)
  qed
  then show ?thesis
    unfolding detectPitch_def Let_def period_floors by (simp only: snd_conv) simp
qed

lemma detectPitch_unpitched:
  assumes "\<And>p. 44 \<le> p \<Longrightarrow> p < 551 \<Longrightarrow> autoCorr frame p = 0"
  shows "detectPitch frame 44100 = 0"
proof -
  have "foldl (pitchStep frame) (0, 0) [44..<551] = (0, 0)"
  proof (rule pitchStep_keep)
    fix p :: nat assume "p \<in> set [44..<551]"
    then have "44 \<le> p" "p < 551" by (simp_all only: set_upt atLeastLessThan_iff)
    then show "autoCorr frame p \<le> fst (0::real, 0::nat)" by (simp add: assms)
  qed
  then show ?thesis
    unfolding detectPitch_def Let_def period_floors by (simp only: snd_conv) simp
qed

lemma threeRuns_loud:
  assumes "i + 4096 \<le> 8193" and "j0 < 4096" and "inRuns (i + j0)"
  shows "7 / 1000 \<le> rmsOf (take 4096 (drop i threeRunsBuffer))"
proof -
  let ?C = "{j. j < 4096 \<and> inRuns (i + j)}"
  have "finite ?C" by simp
  moreover have "j0 \<in> ?C" using assms(2,3) by simp
  ultimately have "0 < card ?C" by (auto simp: card_gt_0_iff)
  then have "1 \<le> real (card ?C)" by simp
  then have "(7 / 1000)\<^sup>2 \<le> real (card ?C) / real 4096"
    by (simp add: power2_eq_square field_simps)
  then have "7 / 1000 \<le> sqrt (real (card ?C) / real 4096)"
    by (rule real_le_rsqrt)
  then show ?thesis
    unfolding threeRuns_frame[OF assms(1)] rmsOf_indicator .
qed


lemma segmentStep_rest:
  "thr \<le> rms \<Longrightarrow> freq < 50 \<Longrightarrow> segmentStep thr m sr st (i, rms, freq) = st"
  by (simp add: segmentStep_def Let_def rest_low pc_low)

lemma segmentStep_start:
  assumes "thr \<le> rms" and "frequencyToNote f = nm" and "nm \<noteq> ''rest''" and "nm \<noteq> []"
    and "lastNote st = []"
  shows "lastNote (segmentStep thr m sr st (i, rms, f)) = nm \<and>
         noteStartTime (segmentStep thr m sr st (i, rms, f)) = real i / sr \<and>
         segNotes (segmentStep thr m sr st (i, rms, f)) = segNotes st"
  using assms by (simp add: segmentStep_def Let_def closeNote_def)

lemma segmentStep_same:
  assumes "thr \<le> rms" and "frequencyToNote f = lastNote st"
  shows "lastNote (segmentStep thr m sr st (i, rms, f)) = lastNote st \<and>
         noteStartTime (segmentStep thr m sr st (i, rms, f)) = noteStartTime st \<and>
         segNotes (segmentStep thr m sr st (i, rms, f)) = segNotes st"
  using assms by (simp add: segmentStep_def Let_def)

lemma frameStarts_three: "frameStarts 2048 0 4097 = [0, 2048, 4096]"
  by code_simp

lemma threeRuns_length: "length threeRunsBuffer = 8193"
  by (simp add: threeRunsBuffer_def)

lemma segmentedNotes_threeRuns:
  "segmentedNotes threeRunsBuffer 44100 defaultAnalysisParams =
     [\<lparr>pitch = ''b5'', time = 0, duration = Some (8193 / 44100), velocity = None\<rparr>]"
proof -
  define r0 where "r0 = rmsOf (take 4096 (drop 0 threeRunsBuffer))"
  define r1 where "r1 = rmsOf (take 4096 (drop 2048 threeRunsBuffer))"
  define r2 where "r2 = rmsOf (take 4096 (drop 4096 threeRunsBuffer))"
  have loud: "7 / 1000 \<le> r0" "7 / 1000 \<le> r1" "7 / 1000 \<le> r2"
    unfolding r0_def r1_def r2_def
    by (rule threeRuns_loud[of _ 0], simp, simp, simp add: inRuns_def,
        rule threeRuns_loud[of _ 952], simp, simp, simp add: inRuns_def,
        rule threeRuns_loud[of _ 2048], simp, simp, simp add: inRuns_def)
  have p0: "detectPitch (take 4096 (drop 0 threeRunsBuffer)) 44100 = 11025 / 11"
    by (rule detectPitch_pitched) (rule frame0_corr)
  have p1: "detectPitch (take 4096 (drop 2048 threeRunsBuffer)) 44100 = 0"
    by (rule detectPitch_unpitched) (rule frame1_corr)
  have p2: "detectPitch (take 4096 (drop 4096 threeRunsBuffer)) 44100 = 11025 / 11"
    by (rule detectPitch_pitched) (rule frame2_corr)
  have o0: "observeFrame 4096 threeRunsBuffer 44100 0 = (0, r0, 11025 / 11)"
    unfolding observeFrame_def Let_def p0 r0_def by (rule refl)
  have o1: "observeFrame 4096 threeRunsBuffer 44100 2048 = (2048, r1, 0)"
    unfolding observeFrame_def Let_def p1 r1_def by (rule refl)
  have o2: "observeFrame 4096 threeRunsBuffer 44100 4096 = (4096, r2, 11025 / 11)"
    unfolding observeFrame_def Let_def p2 r2_def by (rule refl)
  define step where "step = segmentStep (7 / 1000) (1 / 20) 44100"
  define st1 where "st1 = step initialState (0, r0, 11025 / 11)"
  define st2 where "st2 = step st1 (2048, r1, 0)"
  define st3 where "st3 = step st2 (4096, r2, 11025 / 11)"
  have s1: "lastNote st1 = ''b5'' \<and> noteStartTime st1 = 0 \<and> segNotes st1 = []"
    unfolding st1_def step_def
    using segmentStep_start[OF loud(1) frequencyToNote_dc_norm, of initialState "1 / 20" 44100 0]
    by (simp add: initialState_def)
  have "st2 = st1"
    unfolding st2_def step_def using loud(2) by (intro segmentStep_rest) simp_all
  with s1 have s2: "lastNote st2 = ''b5'' \<and> noteStartTime st2 = 0 \<and> segNotes st2 = []"
    by simp
  have s3: "lastNote st3 = ''b5'' \<and> noteStartTime st3 = 0 \<and> segNotes st3 = []"
    unfolding st3_def step_def
    using segmentStep_same[OF loud(3), of "11025 / 11" st2 "1 / 20" 44100 4096] s2
    by (simp add: frequencyToNote_dc_norm)
  have frames: "segmentFrames threeRunsBuffer 44100 defaultAnalysisParams = st3"
    unfolding segmentFrames_def Let_def
    by (simp add: threeRuns_length frameStarts_three o0 o1 o2 defaultAnalysisParams_def
                  st3_def st2_def st1_def step_def)
  show ?thesis
    unfolding segmentedNotes_def frames
    using s3 by (simp add: closeNote_def Let_def threeRuns_length defaultAnalysisParams_def)
qed

text \<open>
  Claim C2, as stated, fails. In the buffer \<open>threeRunsBuffer\<close> at 44.1 kHz the frame at
  sample 2048 is loud enough (its amplitude is above the threshold 0.007 of the default
  parameters) and has the detected frequency 0, below every floor. The note \<open>b5\<close> that
  the first frame started is not closed at that frame's time, 2048/44100 s: the melody
  is one note that starts at 0 and lasts the whole buffer. (Closed there, it would have
  lasted 46 ms, less than the minimum of 50 ms, and the melody would begin at the third
  frame.) The same at the level of the loop body: with \<open>a4\<close> in progress, a loud frame
  of frequency 0 leaves every variable of the loop as it was.
\<close>

theorem rest_frame_counterexample:
  "7 / 1000 \<le> rmsOf (take 4096 (drop 2048 threeRunsBuffer)) \<and>
   detectPitch (take 4096 (drop 2048 threeRunsBuffer)) 44100 = 0 \<and>
   extractedNotes (extractMelody threeRunsBuffer 44100 defaultAnalysisParams) =
     [\<lparr>pitch = ''b5'', time = 0, duration = Some (8193 / 44100), velocity = None\<rparr>] \<and>
   segmentStep (7 / 1000) (1 / 20) 44100 inProgressA4 (2048, 1 / 2, 0) = inProgressA4"
proof -
  have loud: "7 / 1000 \<le> rmsOf (take 4096 (drop 2048 threeRunsBuffer))"
    by (rule threeRuns_loud[of _ 952]) (simp_all add: inRuns_def)
  have unpitched: "detectPitch (take 4096 (drop 2048 threeRunsBuffer)) 44100 = 0"
    by (rule detectPitch_unpitched) (rule frame1_corr)
  have mel: "extractedNotes (extractMelody threeRunsBuffer 44100 defaultAnalysisParams) =
     [\<lparr>pitch = ''b5'', time = 0, duration = Some (8193 / 44100), velocity = None\<rparr>]"
    by (simp add: extractMelody_def segmentedNotes_threeRuns)
  have body: "segmentStep (7 / 1000) (1 / 20) 44100 inProgressA4 (2048, 1 / 2, 0) = inProgressA4"
    by (rule segmentStep_rest) simp_all
  from loud unpitched mel body show ?thesis by blast
qed

text \<open>
  Claim C2, amended. A frame that is not silent and whose detected frequency is below
  the floor of 50 Hz (in the batch page's loop: outside 80 to 2000 Hz) is skipped: it
  adds nothing to the histogram and leaves the note in progress, its start time and the
  emitted notes unchanged, so the note in progress continues through the frame instead
  of being closed at that frame's time.
\<close>

theorem rest_frame_is_skipped:
  "(thr \<le> rms \<and> freq < 50 \<longrightarrow> segmentStep thr minD sr st (i, rms, freq) = st) \<and>
   (minAmp \<le> rms \<and> (freq < 80 \<or> 2000 < freq) \<longrightarrow>
      batchStep minAmp minD sr st (i, rms, freq) = st)"
  by (auto simp: segmentStep_def batchStep_def Let_def rest_low pc_low)

theorem rest_frame_is_skipped_witness:
  "((7 / 1000 :: real) \<le> 1 / 2 \<and> (0::real) < 50) \<and>
   segmentStep (7 / 1000) (1 / 20) 44100 inProgressA4 (2048, 1 / 2, 0) = inProgressA4 \<and>
   ((3 / 100 :: real) \<le> 1 / 2 \<and> ((3000::real) < 80 \<or> (2000::real) < 3000)) \<and>
   batchStep (3 / 100) (1 / 20) 44100 inProgressA4 (2048, 1 / 2, 3000) = inProgressA4"
proof -
  have h1: "(7 / 1000 :: real) \<le> 1 / 2 \<and> (0::real) < 50" by simp
  have h2: "(3 / 100 :: real) \<le> 1 / 2 \<and> ((3000::real) < 80 \<or> (2000::real) < 3000)" by simp
  from rest_frame_is_skipped[of "7 / 1000" "1 / 2" 0 "1 / 20" 44100 inProgressA4 2048] h1
  have c1: "segmentStep (7 / 1000) (1 / 20) 44100 inProgressA4 (2048, 1 / 2, 0) = inProgressA4"
    by blast
  from rest_frame_is_skipped[of _ "1 / 2" 3000 "1 / 20" 44100 inProgressA4 2048 "3 / 100"] h2
  have c2: "batchStep (3 / 100) (1 / 20) 44100 inProgressA4 (2048, 1 / 2, 3000) = inProgressA4"
    by blast
  from h1 c1 h2 c2 show ?thesis by blast
qed


end
